theory Spec2Isabelle
  imports Complex_Main "HOL-Library.Word"
begin

unbundle bit_operations_syntax

section \<open>JavaScript numbers\<close>

text \<open>
  The matching code computes on JavaScript numbers, the values of IEEE 754 binary64. A
  finite value is modelled by the real it denotes (the two zeros are one value: no
  operation of the code tells them apart), beside \<open>NaN\<close> (what arithmetic on
  \<open>undefined\<close>, the value of an out-of-range array read, yields) and the two
  infinities (\<open>bestDistance\<close> starts at \<open>Infinity\<close>, and a result too large for a
  double is an infinity). An array entry and a threshold are given as reals; those the
  program receives are doubles.
\<close>

datatype jsnum = Num real | NaN | PosInfinity | NegInfinity

subsection \<open>Rounding\<close>

text \<open>The integer nearest to \<open>m\<close>; of two equally near ones, the even one.\<close>

definition rne :: "real \<Rightarrow> int" where
  "rne m = (let f = \<lfloor>m\<rfloor>
            in if m - of_int f < 1 / 2 then f
               else if 1 / 2 < m - of_int f then f + 1
               else if even f then f else f + 1)"

text \<open>
  The exponent of the binade of \<open>x\<close> (\<open>2 ^ e \<le> |x| < 2 ^ (e + 1)\<close>), not below that of the
  smallest normal number, and the spacing of the doubles there: a double has 53 significant
  bits.
\<close>

definition binade :: "real \<Rightarrow> int" where
  "binade x = max \<lfloor>log 2 \<bar>x\<bar>\<rfloor> (- 1022)"

definition quantum :: "real \<Rightarrow> real" where
  "quantum x = 2 powr of_int (binade x - 52)"

text \<open>
  The result of an operation whose exact value is \<open>x\<close>: the nearest double, ties to the
  even significand, and an infinity when that rounding reaches \<open>2 ^ 1024\<close>.
\<close>

definition ieee :: "real \<Rightarrow> jsnum" where
  "ieee x =
     (if x = 0 then Num 0
      else (let y = of_int (rne (x / quantum x)) * quantum x
            in if 2 ^ 1024 \<le> \<bar>y\<bar>
               then (if 0 < x then PosInfinity else NegInfinity)
               else Num y))"

text \<open>The reals that are doubles: those that rounding leaves as they are.\<close>

definition is_double :: "real \<Rightarrow> bool" where
  "is_double x = (ieee x = Num x)"

text \<open>No rounding at all: arithmetic on the reals.\<close>

definition exact :: "real \<Rightarrow> jsnum" where
  "exact x = Num x"

subsection \<open>Operations\<close>

text \<open>
  The operations take the rounding \<open>rnd\<close> of their result as a parameter. The program
  runs with \<open>ieee\<close>; \<open>exact\<close> serves to say what a loop computes when nothing is
  rounded.
\<close>

text \<open>\<open>xs[i]\<close> used as an operand of \<open>-\<close>: past the end it is \<open>undefined\<close>, which converts to NaN.\<close>

definition js_index :: "real list \<Rightarrow> nat \<Rightarrow> jsnum" where
  "js_index xs i = (if i < length xs then Num (xs ! i) else NaN)"

fun js_sub :: "(real \<Rightarrow> jsnum) \<Rightarrow> jsnum \<Rightarrow> jsnum \<Rightarrow> jsnum" where
  "js_sub rnd (Num a) (Num b) = rnd (a - b)"
| "js_sub rnd NaN _ = NaN"
| "js_sub rnd _ NaN = NaN"
| "js_sub rnd PosInfinity PosInfinity = NaN"
| "js_sub rnd NegInfinity NegInfinity = NaN"
| "js_sub rnd PosInfinity _ = PosInfinity"
| "js_sub rnd NegInfinity _ = NegInfinity"
| "js_sub rnd (Num a) PosInfinity = NegInfinity"
| "js_sub rnd (Num a) NegInfinity = PosInfinity"

fun js_add :: "(real \<Rightarrow> jsnum) \<Rightarrow> jsnum \<Rightarrow> jsnum \<Rightarrow> jsnum" where
  "js_add rnd (Num a) (Num b) = rnd (a + b)"
| "js_add rnd NaN _ = NaN"
| "js_add rnd _ NaN = NaN"
| "js_add rnd PosInfinity NegInfinity = NaN"
| "js_add rnd NegInfinity PosInfinity = NaN"
| "js_add rnd PosInfinity _ = PosInfinity"
| "js_add rnd NegInfinity _ = NegInfinity"
| "js_add rnd (Num a) PosInfinity = PosInfinity"
| "js_add rnd (Num a) NegInfinity = NegInfinity"

fun js_mul :: "(real \<Rightarrow> jsnum) \<Rightarrow> jsnum \<Rightarrow> jsnum \<Rightarrow> jsnum" where
  "js_mul rnd (Num a) (Num b) = rnd (a * b)"
| "js_mul rnd NaN _ = NaN"
| "js_mul rnd _ NaN = NaN"
| "js_mul rnd PosInfinity PosInfinity = PosInfinity"
| "js_mul rnd NegInfinity NegInfinity = PosInfinity"
| "js_mul rnd PosInfinity NegInfinity = NegInfinity"
| "js_mul rnd NegInfinity PosInfinity = NegInfinity"
| "js_mul rnd PosInfinity (Num b) = (if b = 0 then NaN else if 0 < b then PosInfinity else NegInfinity)"
| "js_mul rnd NegInfinity (Num b) = (if b = 0 then NaN else if 0 < b then NegInfinity else PosInfinity)"
| "js_mul rnd (Num a) PosInfinity = (if a = 0 then NaN else if 0 < a then PosInfinity else NegInfinity)"
| "js_mul rnd (Num a) NegInfinity = (if a = 0 then NaN else if 0 < a then NegInfinity else PosInfinity)"

text \<open>
  \<open>Math.pow(x, 2)\<close> and \<open>Math.sqrt(x)\<close>. The language leaves the accuracy of
  \<open>Math.pow\<close> to the engine; it is taken here as the correctly rounded square (the value
  of \<open>x * x\<close>). \<open>Math.sqrt\<close> is the correctly rounded root.
\<close>

fun js_pow2 :: "(real \<Rightarrow> jsnum) \<Rightarrow> jsnum \<Rightarrow> jsnum" where
  "js_pow2 rnd (Num a) = rnd (a\<^sup>2)"
| "js_pow2 rnd NaN = NaN"
| "js_pow2 rnd PosInfinity = PosInfinity"
| "js_pow2 rnd NegInfinity = PosInfinity"

fun js_sqrt :: "(real \<Rightarrow> jsnum) \<Rightarrow> jsnum \<Rightarrow> jsnum" where
  "js_sqrt rnd (Num a) = (if a < 0 then NaN else rnd (sqrt a))"
| "js_sqrt rnd NaN = NaN"
| "js_sqrt rnd PosInfinity = PosInfinity"
| "js_sqrt rnd NegInfinity = NaN"

text \<open>\<open>x < y\<close> and \<open>x <= y\<close>: every comparison with NaN is false.\<close>

fun js_lt :: "jsnum \<Rightarrow> jsnum \<Rightarrow> bool" where
  "js_lt (Num a) (Num b) = (a < b)"
| "js_lt NaN _ = False"
| "js_lt _ NaN = False"
| "js_lt PosInfinity _ = False"
| "js_lt _ PosInfinity = True"
| "js_lt NegInfinity (Num b) = True"
| "js_lt _ NegInfinity = False"

fun js_le :: "jsnum \<Rightarrow> jsnum \<Rightarrow> bool" where
  "js_le (Num a) (Num b) = (a \<le> b)"
| "js_le NaN _ = False"
| "js_le _ NaN = False"
| "js_le _ PosInfinity = True"
| "js_le NegInfinity _ = True"
| "js_le PosInfinity _ = False"
| "js_le (Num a) NegInfinity = False"

section \<open>The unrolled distance loops\<close>

text \<open>
  One summand of the stride-8 loop of \<open>findMatchingFace\<close> (utils):
  \<open>(k < len) ? Math.pow(targetArray[k] - profileArray[k], 2) : 0\<close>,
  where \<open>len = targetArray.length\<close>.
\<close>

definition pow_term :: "(real \<Rightarrow> jsnum) \<Rightarrow> real list \<Rightarrow> real list \<Rightarrow> nat \<Rightarrow> jsnum" where
  "pow_term rnd targetArray profileArray k =
     (if k < length targetArray
      then js_pow2 rnd (js_sub rnd (js_index targetArray k) (js_index profileArray k))
      else Num 0)"

text \<open>
  \<open>for (let j = 0; j < len; j += 8) { sum += t0 + t1 + ... + t7; }\<close>; the variable \<open>sum\<close> is \<open>acc\<close> here
  (\<open>+\<close> associates to the left: the eight summands are added up first, then added to \<open>sum\<close>).
\<close>

function sum8 :: "(real \<Rightarrow> jsnum) \<Rightarrow> real list \<Rightarrow> real list \<Rightarrow> nat \<Rightarrow> jsnum \<Rightarrow> jsnum" where
  "sum8 rnd targetArray profileArray j acc =
     (if j < length targetArray
      then sum8 rnd targetArray profileArray (j + 8)
             (js_add rnd acc
               (js_add rnd (js_add rnd (js_add rnd (js_add rnd (js_add rnd (js_add rnd (js_add rnd
                 (pow_term rnd targetArray profileArray j)
                 (pow_term rnd targetArray profileArray (j + 1)))
                 (pow_term rnd targetArray profileArray (j + 2)))
                 (pow_term rnd targetArray profileArray (j + 3)))
                 (pow_term rnd targetArray profileArray (j + 4)))
                 (pow_term rnd targetArray profileArray (j + 5)))
                 (pow_term rnd targetArray profileArray (j + 6)))
                 (pow_term rnd targetArray profileArray (j + 7))))
      else acc)"
  by pat_completeness auto
termination
  by (relation "measure (\<lambda>(r, t, p, j, s). length t - j)") auto

declare sum8.simps [simp del]

text \<open>\<open>const distance = Math.sqrt(sum)\<close>, under a rounding and as the program runs it.\<close>

definition distance8_with :: "(real \<Rightarrow> jsnum) \<Rightarrow> real list \<Rightarrow> real list \<Rightarrow> jsnum" where
  "distance8_with rnd targetArray profileArray =
     js_sqrt rnd (sum8 rnd targetArray profileArray 0 (Num 0))"

definition distance8 :: "real list \<Rightarrow> real list \<Rightarrow> jsnum" where
  "distance8 = distance8_with ieee"

text \<open>
  The guarded differences of the stride-4 loop of \<open>findMatchingFaceDirectly\<close> and
  \<open>compareFaceDescriptors\<close> (server):
  \<open>k < length ? targetArray[k] - profileDescriptor[k] : 0\<close>.
\<close>

definition diff_term :: "(real \<Rightarrow> jsnum) \<Rightarrow> real list \<Rightarrow> real list \<Rightarrow> nat \<Rightarrow> jsnum" where
  "diff_term rnd targetArray profileDescriptor k =
     (if k < length targetArray
      then js_sub rnd (js_index targetArray k) (js_index profileDescriptor k)
      else Num 0)"

text \<open>
  \<open>for (let i = 0; i < length; i += 4) { diff1 = t[i] - p[i]; diff2 = ...;
  distance += diff1 * diff1 + diff2 * diff2 + diff3 * diff3 + diff4 * diff4; }\<close>.
  The first difference carries no guard in the source.
\<close>

function sum4 :: "(real \<Rightarrow> jsnum) \<Rightarrow> real list \<Rightarrow> real list \<Rightarrow> nat \<Rightarrow> jsnum \<Rightarrow> jsnum" where
  "sum4 rnd targetArray profileDescriptor i distance =
     (if i < length targetArray
      then (let diff1 = js_sub rnd (js_index targetArray i) (js_index profileDescriptor i);
                diff2 = diff_term rnd targetArray profileDescriptor (i + 1);
                diff3 = diff_term rnd targetArray profileDescriptor (i + 2);
                diff4 = diff_term rnd targetArray profileDescriptor (i + 3)
            in sum4 rnd targetArray profileDescriptor (i + 4)
                 (js_add rnd distance
                   (js_add rnd (js_add rnd (js_add rnd (js_mul rnd diff1 diff1) (js_mul rnd diff2 diff2))
                      (js_mul rnd diff3 diff3)) (js_mul rnd diff4 diff4))))
      else distance)"
  by pat_completeness auto
termination
  by (relation "measure (\<lambda>(r, t, p, i, d). length t - i)") auto

declare sum4.simps [simp del]

text \<open>\<open>distance = Math.sqrt(distance)\<close>, under a rounding and as the program runs it.\<close>

definition distance4_with :: "(real \<Rightarrow> jsnum) \<Rightarrow> real list \<Rightarrow> real list \<Rightarrow> jsnum" where
  "distance4_with rnd targetArray profileDescriptor =
     js_sqrt rnd (sum4 rnd targetArray profileDescriptor 0 (Num 0))"

definition distance4 :: "real list \<Rightarrow> real list \<Rightarrow> jsnum" where
  "distance4 = distance4_with ieee"

text \<open>
  The reference of the specification: the square root of the sum, over all components,
  of the squared componentwise difference, in the reals.
\<close>

definition euclidean_distance :: "real list \<Rightarrow> real list \<Rightarrow> real" where
  "euclidean_distance a b = sqrt (\<Sum>i\<leftarrow>[0..<length a]. (a ! i - b ! i)\<^sup>2)"

section \<open>Nearest-match search\<close>

text \<open>
  A face profile as the search reads it: \<open>faceDescriptor\<close> is \<open>None\<close> when the
  field is missing (\<open>null\<close>, \<open>undefined\<close>: the test \<open>!profile.faceDescriptor\<close>
  holds), otherwise the array of its entries, of whatever length.
\<close>

record profile =
  userId :: string
  faceDescriptor :: "real list option"

text \<open>The object \<open>{ match: bestMatch, distance: bestDistance }\<close>.\<close>

record match_result =
  match :: "profile option"
  distance :: jsnum

text \<open>
  The local variables of a search. \<open>compared\<close> is a ghost counter that is not in the
  source: it counts the distances computed so far (one per execution of
  \<open>Math.sqrt\<close>).
\<close>

record search =
  bestMatch :: "profile option"
  bestDistance :: jsnum
  compared :: nat

definition search_init :: search where
  "search_init = \<lparr>bestMatch = None, bestDistance = PosInfinity, compared = 0\<rparr>"

text \<open>A loop either runs to its end with its variables, or leaves the function by \<open>return\<close>.\<close>

datatype scan = Continue search | Return match_result nat

subsection \<open>\<open>findMatchingFace\<close> of \<open>src/utils/db.js\<close>\<close>

text \<open>
  The expression \<open>threshold * 0.7\<close>: the literal is the double nearest to \<open>7 / 10\<close>, and
  the product is rounded.
\<close>

definition early_cut :: "real \<Rightarrow> jsnum" where
  "early_cut threshold = js_mul ieee (Num threshold) (ieee (7 / 10))"

text \<open>
  The inner loop \<open>for (const profile of batch)\<close>: a missing descriptor is skipped by
  \<open>continue\<close>; a better distance updates the best match, and one below
  \<open>threshold * 0.7\<close> returns at once.
\<close>

fun scan_batch :: "real list \<Rightarrow> real \<Rightarrow> profile list \<Rightarrow> search \<Rightarrow> scan" where
  "scan_batch targetArray threshold [] st = Continue st"
| "scan_batch targetArray threshold (profile # batch) st =
     (case faceDescriptor profile of
        None \<Rightarrow> scan_batch targetArray threshold batch st
      | Some profileArray \<Rightarrow>
          (let d = distance8 targetArray profileArray;
               st1 = st\<lparr>compared := compared st + 1\<rparr>
           in if js_lt d (bestDistance st1)
              then (let st2 = st1\<lparr>bestDistance := d, bestMatch := Some profile\<rparr>
                    in if js_lt d (early_cut threshold)
                       then Return \<lparr>match = bestMatch st2, distance = bestDistance st2\<rparr> (compared st2)
                       else scan_batch targetArray threshold batch st2)
              else scan_batch targetArray threshold batch st1))"

definition BATCH_SIZE :: nat where
  "BATCH_SIZE = 10"

text \<open>
  The outer loop \<open>for (let i = 0; i < faceProfiles.length; i += BATCH_SIZE)\<close> over
  \<open>batch = faceProfiles.slice(i, i + BATCH_SIZE)\<close>.
\<close>

function scan_batches :: "real list \<Rightarrow> real \<Rightarrow> profile list \<Rightarrow> nat \<Rightarrow> search \<Rightarrow> scan" where
  "scan_batches targetArray threshold faceProfiles i st =
     (if i < length faceProfiles
      then (case scan_batch targetArray threshold (take BATCH_SIZE (drop i faceProfiles)) st of
              Return r n \<Rightarrow> Return r n
            | Continue st' \<Rightarrow> scan_batches targetArray threshold faceProfiles (i + BATCH_SIZE) st')
      else Continue st)"
  by pat_completeness auto
termination
  by (relation "measure (\<lambda>(t, th, ps, i, st). length ps - i)") (auto simp: BATCH_SIZE_def)

declare scan_batches.simps [simp del]

text \<open>
  The function, with the ghost counter beside its result. A \<open>null\<close> or
  \<open>undefined\<close> argument is \<open>None\<close>; the result \<open>None\<close> is \<open>null\<close>.
\<close>

definition findMatchingFace_counted ::
  "real list option \<Rightarrow> profile list option \<Rightarrow> real \<Rightarrow> match_result option \<times> nat" where
  "findMatchingFace_counted targetDescriptor faceProfiles threshold =
     (case targetDescriptor of
        None \<Rightarrow> (None, 0)
      | Some targetArray \<Rightarrow>
          (case faceProfiles of
             None \<Rightarrow> (None, 0)
           | Some ps \<Rightarrow>
               if length ps = 0 then (None, 0)
               else (case scan_batches targetArray threshold ps 0 search_init of
                       Return r n \<Rightarrow> (Some r, n)
                     | Continue st \<Rightarrow>
                         (if js_le (bestDistance st) (Num threshold)
                          then Some \<lparr>match = bestMatch st, distance = bestDistance st\<rparr>
                          else None,
                          compared st))))"

definition findMatchingFace ::
  "real list option \<Rightarrow> profile list option \<Rightarrow> real \<Rightarrow> match_result option" where
  "findMatchingFace targetDescriptor faceProfiles threshold =
     fst (findMatchingFace_counted targetDescriptor faceProfiles threshold)"

subsection \<open>\<open>findMatchingFaceDirectly\<close> and \<open>findMatchingFace\<close> of \<open>src/server/utils/faceRecognition.js\<close>\<close>

text \<open>
  \<open>for (const profile of faceProfiles)\<close> with the update
  \<open>if (distance < threshold && distance < bestDistance)\<close>; no early return.
\<close>

fun direct_loop :: "real list \<Rightarrow> real \<Rightarrow> profile list \<Rightarrow> search \<Rightarrow> search" where
  "direct_loop targetArray threshold [] st = st"
| "direct_loop targetArray threshold (profile # faceProfiles) st =
     (case faceDescriptor profile of
        None \<Rightarrow> direct_loop targetArray threshold faceProfiles st
      | Some profileDescriptor \<Rightarrow>
          (let d = distance4 targetArray profileDescriptor;
               st1 = st\<lparr>compared := compared st + 1\<rparr>
           in if js_lt d (Num threshold) \<and> js_lt d (bestDistance st1)
              then direct_loop targetArray threshold faceProfiles
                     (st1\<lparr>bestDistance := d, bestMatch := Some profile\<rparr>)
              else direct_loop targetArray threshold faceProfiles st1))"

text \<open>\<open>return bestMatch ? { match: bestMatch, distance: bestDistance } : null\<close>.\<close>

definition findMatchingFaceDirectly_counted ::
  "real list \<Rightarrow> profile list \<Rightarrow> real \<Rightarrow> match_result option \<times> nat" where
  "findMatchingFaceDirectly_counted targetDescriptor faceProfiles threshold =
     (let st = direct_loop targetDescriptor threshold faceProfiles search_init
      in (case bestMatch st of
            None \<Rightarrow> None
          | Some p \<Rightarrow> Some \<lparr>match = bestMatch st, distance = bestDistance st\<rparr>,
          compared st))"

definition findMatchingFaceDirectly ::
  "real list \<Rightarrow> profile list \<Rightarrow> real \<Rightarrow> match_result option" where
  "findMatchingFaceDirectly targetDescriptor faceProfiles threshold =
     fst (findMatchingFaceDirectly_counted targetDescriptor faceProfiles threshold)"

text \<open>
  The wrapper splits a long list into \<open>CPU_CORES\<close> batches:
  \<open>for (let i = 0; i < faceProfiles.length; i += batchSize)
  batches.push(faceProfiles.slice(i, i + batchSize))\<close>. With \<open>batchSize = 0\<close> the
  source loop would not end; the wrapper calls it with
  \<open>batchSize = Math.ceil(length / CPU_CORES)\<close> for a list of at least ten profiles
  only, which is positive, and the guard \<open>0 < batchSize\<close> below is then true.
\<close>

function split_batches :: "profile list \<Rightarrow> nat \<Rightarrow> nat \<Rightarrow> profile list list" where
  "split_batches faceProfiles batchSize i =
     (if i < length faceProfiles \<and> 0 < batchSize
      then take batchSize (drop i faceProfiles) # split_batches faceProfiles batchSize (i + batchSize)
      else [])"
  by pat_completeness auto
termination
  by (relation "measure (\<lambda>(ps, b, i). length ps - i)") auto

declare split_batches.simps [simp del]

text \<open>
  \<open>batches.forEach(batch => { const batchResult = findMatchingFaceDirectly(...);
  if (batchResult && batchResult.distance < bestDistance) { ... } })\<close>.
\<close>

fun batches_loop :: "real list \<Rightarrow> real \<Rightarrow> profile list list \<Rightarrow> search \<Rightarrow> search" where
  "batches_loop targetArray threshold [] st = st"
| "batches_loop targetArray threshold (batch # batches) st =
     (case findMatchingFaceDirectly_counted targetArray batch threshold of
        (batchResult, n) \<Rightarrow>
          (let st1 = st\<lparr>compared := compared st + n\<rparr>
           in case batchResult of
                None \<Rightarrow> batches_loop targetArray threshold batches st1
              | Some r \<Rightarrow>
                  if js_lt (distance r) (bestDistance st1)
                  then batches_loop targetArray threshold batches
                         (st1\<lparr>bestDistance := distance r, bestMatch := match r\<rparr>)
                  else batches_loop targetArray threshold batches st1))"

text \<open>
  What the wrapper returns: \<open>null\<close>, the object of \<open>findMatchingFaceDirectly\<close>, or
  (on the batched path, \<open>return bestMatch\<close>) a bare profile.
\<close>

datatype server_result = Null | MatchObject match_result | BareProfile profile

definition findMatchingFace_server_counted ::
  "nat \<Rightarrow> real list option \<Rightarrow> profile list option \<Rightarrow> real \<Rightarrow> server_result \<times> nat" where
  "findMatchingFace_server_counted CPU_CORES targetDescriptor faceProfiles threshold =
     (case targetDescriptor of
        None \<Rightarrow> (Null, 0)
      | Some targetArray \<Rightarrow>
          (case faceProfiles of
             None \<Rightarrow> (Null, 0)
           | Some ps \<Rightarrow>
               if length ps = 0 then (Null, 0)
               else if length ps < 10 \<or> CPU_CORES \<le> 1
               then (case findMatchingFaceDirectly_counted targetArray ps threshold of
                       (None, n) \<Rightarrow> (Null, n)
                     | (Some r, n) \<Rightarrow> (MatchObject r, n))
               else (let batchSize = (length ps + CPU_CORES - 1) div CPU_CORES;
                         batches = split_batches ps batchSize 0;
                         st = batches_loop targetArray threshold batches search_init
                     in (case bestMatch st of None \<Rightarrow> Null | Some p \<Rightarrow> BareProfile p,
                         compared st))))"

subsection \<open>\<open>findMatchingFace\<close> of \<open>src/unnamed/part_003\<close>\<close>

text \<open>The stride-8 distance, the update \<open>if (distance < bestDistance)\<close>, no early return.\<close>

fun part3_loop :: "real list \<Rightarrow> profile list \<Rightarrow> search \<Rightarrow> search" where
  "part3_loop targetArray [] st = st"
| "part3_loop targetArray (profile # faceProfiles) st =
     (case faceDescriptor profile of
        None \<Rightarrow> part3_loop targetArray faceProfiles st
      | Some profileArray \<Rightarrow>
          (let d = distance8 targetArray profileArray;
               st1 = st\<lparr>compared := compared st + 1\<rparr>
           in if js_lt d (bestDistance st1)
              then part3_loop targetArray faceProfiles
                     (st1\<lparr>bestDistance := d, bestMatch := Some profile\<rparr>)
              else part3_loop targetArray faceProfiles st1))"

text \<open>\<open>return bestDistance < threshold ? { match: bestMatch, distance: bestDistance } : null\<close>.\<close>

definition findMatchingFace_part3_counted ::
  "real list option \<Rightarrow> profile list option \<Rightarrow> real \<Rightarrow> match_result option \<times> nat" where
  "findMatchingFace_part3_counted targetDescriptor faceProfiles threshold =
     (case targetDescriptor of
        None \<Rightarrow> (None, 0)
      | Some targetArray \<Rightarrow>
          (case faceProfiles of
             None \<Rightarrow> (None, 0)
           | Some ps \<Rightarrow>
               if length ps = 0 then (None, 0)
               else (let st = part3_loop targetArray ps search_init
                     in (if js_lt (bestDistance st) (Num threshold)
                         then Some \<lparr>match = bestMatch st, distance = bestDistance st\<rparr>
                         else None,
                         compared st))))"

definition findMatchingFace_part3 ::
  "real list option \<Rightarrow> profile list option \<Rightarrow> real \<Rightarrow> match_result option" where
  "findMatchingFace_part3 targetDescriptor faceProfiles threshold =
     fst (findMatchingFace_part3_counted targetDescriptor faceProfiles threshold)"

text \<open>
  The distance of a candidate as the claims speak of it: defined when the profile has a
  descriptor and the computed distance is a number.
\<close>

definition candidate_distance ::
  "(real list \<Rightarrow> real list \<Rightarrow> jsnum) \<Rightarrow> real list \<Rightarrow> profile \<Rightarrow> real option" where
  "candidate_distance distfn targetArray p =
     (case faceDescriptor p of
        None \<Rightarrow> None
      | Some d \<Rightarrow> (case distfn targetArray d of Num r \<Rightarrow> Some r | _ \<Rightarrow> None))"

definition has_descriptor :: "profile \<Rightarrow> bool" where
  "has_descriptor p = (faceDescriptor p \<noteq> None)"

subsection \<open>Example candidates\<close>

text \<open>Candidates used to run the searches on concrete inputs.\<close>

definition profile_A :: profile where
  "profile_A = \<lparr>userId = ''A'', faceDescriptor = Some [1 / 4]\<rparr>"

definition profile_B :: profile where
  "profile_B = \<lparr>userId = ''B'', faceDescriptor = Some [0]\<rparr>"

definition profile_C :: profile where
  "profile_C = \<lparr>userId = ''C'', faceDescriptor = Some [1 / 2]\<rparr>"

definition profile_missing :: profile where
  "profile_missing = \<lparr>userId = ''M'', faceDescriptor = None\<rparr>"

definition profile_empty :: profile where
  "profile_empty = \<lparr>userId = ''E'', faceDescriptor = Some []\<rparr>"

definition profile_long :: profile where
  "profile_long = \<lparr>userId = ''L'', faceDescriptor = Some [0, 5]\<rparr>"

text \<open>
  Candidates for the boundary cases of the arithmetic: the double \<open>0.35\<close>, the origin in
  two and three dimensions, and the double \<open>-1e200\<close>.
\<close>

definition profile_D :: profile where
  "profile_D = \<lparr>userId = ''D'', faceDescriptor = Some [3152519739159347 / 9007199254740992]\<rparr>"

definition profile_O2 :: profile where
  "profile_O2 = \<lparr>userId = ''O2'', faceDescriptor = Some [0, 0]\<rparr>"

definition profile_O3 :: profile where
  "profile_O3 = \<lparr>userId = ''O3'', faceDescriptor = Some [0, 0, 0]\<rparr>"

definition profile_far :: profile where
  "profile_far = \<lparr>userId = ''F'', faceDescriptor = Some [- (5883593420661338 * 2 ^ 612)]\<rparr>"

section \<open>The model loader, the descriptor cache and descriptor extraction\<close>

text \<open>
  Both modules keep their state in module-level variables. One record holds them:
  \<open>modelsLoaded\<close>, \<open>modelLoadingPromise\<close> (the pending promise, by identity, or
  \<open>None\<close> for \<open>null\<close>), \<open>lastModelLoadTime\<close>, the \<open>Map\<close> \<open>descriptorCache\<close> as the
  list of its entries in insertion order, and the array \<open>cacheAccessOrder\<close>. The server
  module has neither \<open>lastModelLoadTime\<close> nor \<open>cacheAccessOrder\<close>; its functions leave
  these fields alone. The last five fields are ghost state that is not in the source:
  the number of model loads started and settled, the number of runs of the
  detection/embedding pipeline, and a logical clock with the time of the last use (cache
  hit or insertion) of every key.
\<close>

record 'k module_state =
  modelsLoaded :: bool
  modelLoadingPromise :: "nat option"
  lastModelLoadTime :: int
  descriptorCache :: "('k \<times> real list) list"
  cacheAccessOrder :: "'k list"
  loadsStarted :: nat
  loadsSettled :: nat
  pipelineRuns :: nat
  tick :: nat
  lastUse :: "'k \<Rightarrow> nat"

definition initial_state :: "'k module_state" where
  "initial_state =
     \<lparr>modelsLoaded = False, modelLoadingPromise = None, lastModelLoadTime = 0,
      descriptorCache = [], cacheAccessOrder = [],
      loadsStarted = 0, loadsSettled = 0, pipelineRuns = 0, tick = 0, lastUse = (\<lambda>k. 0)\<rparr>"

datatype error = Error string

subsection \<open>\<open>loadModels\<close>\<close>

text \<open>What \<open>loadModels\<close> hands to its caller: \<open>Promise.resolve()\<close> or the loading promise.\<close>

datatype load_return = Resolved | Pending nat

definition MODEL_VALIDITY_DURATION :: int where
  "MODEL_VALIDITY_DURATION = 15 * 60 * 1000"

text \<open>
  \<open>loadModels\<close> of \<open>src/utils/db.js\<close>, up to its \<open>return\<close>; \<open>currentTime\<close> is
  \<open>Date.now()\<close>. Starting a load (\<open>Promise.all([... loadFromDisk ...])\<close>) creates a new
  promise, named by the number of loads started before it.
\<close>

definition loadModels :: "int \<Rightarrow> 'k module_state \<Rightarrow> load_return \<times> 'k module_state" where
  "loadModels currentTime s =
     (if modelsLoaded s \<and> currentTime - lastModelLoadTime s < MODEL_VALIDITY_DURATION
      then (Resolved, s)
      else (case modelLoadingPromise s of
              Some p \<Rightarrow> (Pending p, s)
            | None \<Rightarrow>
                (Pending (loadsStarted s),
                 s\<lparr>modelLoadingPromise := Some (loadsStarted s),
                   loadsStarted := loadsStarted s + 1\<rparr>)))"

text \<open>
  The handlers that run when the load settles: \<open>.then(() => { modelsLoaded = true;
  lastModelLoadTime = Date.now(); modelLoadingPromise = null; })\<close> and
  \<open>.catch(error => { modelLoadingPromise = null; throw error; })\<close>. The call
  \<open>warmupModels()\<close> in the first handler touches none of these variables and
  catches its own errors; it is left out.
\<close>

definition then_handler :: "int \<Rightarrow> 'k module_state \<Rightarrow> 'k module_state" where
  "then_handler now s =
     s\<lparr>modelsLoaded := True, lastModelLoadTime := now, modelLoadingPromise := None,
       loadsSettled := loadsSettled s + 1\<rparr>"

definition catch_handler :: "'k module_state \<Rightarrow> 'k module_state" where
  "catch_handler s = s\<lparr>modelLoadingPromise := None, loadsSettled := loadsSettled s + 1\<rparr>"

text \<open>
  \<open>loadModels\<close> of \<open>src/server/utils/faceRecognition.js\<close>: the pending promise is
  tested first, then \<open>modelsLoaded\<close>. When the load settles, the body of the async
  function sets \<open>modelsLoaded = true\<close> on success, and its \<open>finally\<close> clears the promise
  on both paths.
\<close>

definition loadModels_server :: "'k module_state \<Rightarrow> load_return \<times> 'k module_state" where
  "loadModels_server s =
     (case modelLoadingPromise s of
        Some p \<Rightarrow> (Pending p, s)
      | None \<Rightarrow>
          if modelsLoaded s then (Resolved, s)
          else (Pending (loadsStarted s),
                s\<lparr>modelLoadingPromise := Some (loadsStarted s),
                  loadsStarted := loadsStarted s + 1\<rparr>))"

definition server_loaded :: "'k module_state \<Rightarrow> 'k module_state" where
  "server_loaded s =
     s\<lparr>modelsLoaded := True, modelLoadingPromise := None, loadsSettled := loadsSettled s + 1\<rparr>"

definition server_failed :: "'k module_state \<Rightarrow> 'k module_state" where
  "server_failed s = s\<lparr>modelLoadingPromise := None, loadsSettled := loadsSettled s + 1\<rparr>"

text \<open>
  JavaScript runs each of these pieces to its end before the next one starts. The
  states the utils module can be in are those reached from the initial state by calls
  of \<open>loadModels\<close> and settlements of the pending load, in any order and number, at
  times that do not decrease (the first argument is the time of the last event), and
  by changes of the cache and of the ghost fields, which no loader code reads.
\<close>

definition cache_activity ::
  "('k \<times> real list) list \<Rightarrow> 'k list \<Rightarrow> nat \<Rightarrow> nat \<Rightarrow> ('k \<Rightarrow> nat) \<Rightarrow> 'k module_state
     \<Rightarrow> 'k module_state" where
  "cache_activity c a n k f s =
     s\<lparr>descriptorCache := c, cacheAccessOrder := a, pipelineRuns := n, tick := k, lastUse := f\<rparr>"


inductive reachable_server :: "'k module_state \<Rightarrow> bool" where
  start: "reachable_server initial_state"
| call: "reachable_server s \<Longrightarrow> reachable_server (snd (loadModels_server s))"
| fulfilled: "reachable_server s \<Longrightarrow> modelLoadingPromise s \<noteq> None \<Longrightarrow>
    reachable_server (server_loaded s)"
| rejected: "reachable_server s \<Longrightarrow> modelLoadingPromise s \<noteq> None \<Longrightarrow>
    reachable_server (server_failed s)"
| cache: "reachable_server s \<Longrightarrow> reachable_server (cache_activity c a n k f s)"




subsection \<open>The cache\<close>

text \<open>
  \<open>hashBuffer\<close> of \<open>src/utils/db.js\<close>. After every step \<open>hash\<close> is a 32-bit integer
  (\<open><<\<close> and \<open>^\<close> convert their operands with ToInt32, and the sum of two 32-bit
  integers is exact in a double), so the step is word arithmetic. The loop guard
  \<open>0 < step\<close> is not in the source; \<open>step\<close> is \<open>Math.max(1, ...)\<close> there.
\<close>

function hash_loop :: "8 word list \<Rightarrow> nat \<Rightarrow> nat \<Rightarrow> 32 word \<Rightarrow> 32 word" where
  "hash_loop data step i hash =
     (if i < length data \<and> 0 < step
      then hash_loop data step (i + step) ((push_bit 5 hash + hash) XOR ucast (data ! i))
      else hash)"
  by pat_completeness auto
termination
  by (relation "measure (\<lambda>(d, st, i, h). length d - i)") auto

declare hash_loop.simps [simp del]

text \<open>
  For an empty buffer \<open>totalBytes\<close> is \<open>0\<close>, \<open>step\<close> is NaN and the loop body never runs.
  The key \<open>hash.toString(36)\<close> is the base-36 numeral of the signed value of \<open>hash\<close>;
  the model keeps the integer.
\<close>

definition hashBuffer :: "8 word list \<Rightarrow> int" where
  "hashBuffer buffer =
     (let data = buffer;
          totalBytes = min 100 (length data)
      in if length data = 0 then sint (5381 :: 32 word)
         else (let step = max 1 (length data div totalBytes)
               in sint (hash_loop data step 0 5381)))"

text \<open>
  The operations of a JavaScript \<open>Map\<close> on the list of its entries: \<open>has\<close>, \<open>get\<close>,
  \<open>set\<close> (a present key keeps its place, a new key goes last), \<open>delete\<close>.
\<close>

definition map_has :: "'k \<Rightarrow> ('k \<times> 'v) list \<Rightarrow> bool" where
  "map_has k m = (k \<in> set (map fst m))"

definition map_get :: "'k \<Rightarrow> ('k \<times> 'v) list \<Rightarrow> 'v option" where
  "map_get k m = map_of m k"

fun map_set :: "'k \<Rightarrow> 'v \<Rightarrow> ('k \<times> 'v) list \<Rightarrow> ('k \<times> 'v) list" where
  "map_set k v [] = [(k, v)]"
| "map_set k v ((k', v') # m) = (if k' = k then (k, v) # m else (k', v') # map_set k v m)"

definition map_delete :: "'k \<Rightarrow> ('k \<times> 'v) list \<Rightarrow> ('k \<times> 'v) list" where
  "map_delete k m = filter (\<lambda>kv. fst kv \<noteq> k) m"

text \<open>
  \<open>updateCacheAccess\<close>: \<open>indexOf\<close> and \<open>splice\<close> remove the first occurrence of the
  key, \<open>push\<close> appends it.
\<close>

definition updateCacheAccess :: "'k \<Rightarrow> 'k list \<Rightarrow> 'k list" where
  "updateCacheAccess key order = remove1 key order @ [key]"

text \<open>The ghost record of a use of \<open>key\<close>.\<close>

definition touch :: "'k \<Rightarrow> 'k module_state \<Rightarrow> 'k module_state" where
  "touch key s = s\<lparr>lastUse := (lastUse s)(key := tick s), tick := tick s + 1\<rparr>"

definition CACHE_SIZE_LIMIT :: nat where
  "CACHE_SIZE_LIMIT = 100"

text \<open>
  The insertion of \<open>src/utils/db.js\<close>: \<open>if (descriptorCache.size >= CACHE_SIZE_LIMIT)
  { const oldestKey = cacheAccessOrder.shift(); descriptorCache.delete(oldestKey); }
  descriptorCache.set(bufferHash, descriptor); updateCacheAccess(bufferHash);\<close>. On an
  empty array \<open>shift\<close> yields \<open>undefined\<close>, which is no key of the map.
\<close>

definition cache_insert :: "'k \<Rightarrow> real list \<Rightarrow> 'k module_state \<Rightarrow> 'k module_state" where
  "cache_insert bufferHash descriptor s =
     (let s1 = (if CACHE_SIZE_LIMIT \<le> length (descriptorCache s)
                then (case cacheAccessOrder s of
                        [] \<Rightarrow> s
                      | oldestKey # rest \<Rightarrow>
                          s\<lparr>cacheAccessOrder := rest,
                            descriptorCache := map_delete oldestKey (descriptorCache s)\<rparr>)
                else s)
      in touch bufferHash
           (s1\<lparr>descriptorCache := map_set bufferHash descriptor (descriptorCache s1),
               cacheAccessOrder := updateCacheAccess bufferHash (cacheAccessOrder s1)\<rparr>))"

text \<open>
  The insertion of \<open>src/server/utils/faceRecognition.js\<close>:
  \<open>descriptorCache.set(cacheKey, descriptor); if (descriptorCache.size > 100)
  { const firstKey = descriptorCache.keys().next().value; descriptorCache.delete(firstKey); }\<close>.
\<close>

definition cache_insert_server :: "'k \<Rightarrow> real list \<Rightarrow> 'k module_state \<Rightarrow> 'k module_state" where
  "cache_insert_server cacheKey descriptor s =
     (let m = map_set cacheKey descriptor (descriptorCache s)
      in touch cacheKey
           (s\<lparr>descriptorCache :=
                 (if 100 < length m
                  then (case m of [] \<Rightarrow> m | (firstKey, v) # rest \<Rightarrow> map_delete firstKey m)
                  else m)\<rparr>))"

text \<open>
  \<open>Buffer.from(imageBuffer).toString('base64')\<close>: the standard alphabet, with padding.
\<close>

definition base64_char :: "nat \<Rightarrow> char" where
  "base64_char i =
     ''ABCDEFGHIJKLMNOPQRSTUVWXYZabcdefghijklmnopqrstuvwxyz0123456789+/'' ! i"

fun base64 :: "8 word list \<Rightarrow> string" where
  "base64 [] = []"
| "base64 [a] =
     [base64_char (unat a div 4), base64_char ((unat a mod 4) * 16), CHR ''='', CHR ''='']"
| "base64 [a, b] =
     [base64_char (unat a div 4), base64_char ((unat a mod 4) * 16 + unat b div 16),
      base64_char ((unat b mod 16) * 4), CHR ''='']"
| "base64 (a # b # c # rest) =
     [base64_char (unat a div 4), base64_char ((unat a mod 4) * 16 + unat b div 16),
      base64_char ((unat b mod 16) * 4 + unat c div 64), base64_char (unat c mod 64)]
     @ base64 rest"

subsection \<open>\<open>extractFaceDescriptor\<close>\<close>

text \<open>
  What lies outside the repository, for one call: how the awaited model load settles
  (if the call has to wait for one, with \<open>Date.now()\<close> at its completion), and the three
  stages of the pipeline as functions of the image bytes, each of which may throw:
  decoding and resizing (\<open>canvas.loadImage\<close>, \<open>preprocessImage\<close>), the first detection
  (\<open>detectSingleFace\<close>; \<open>False\<close> when it finds no face), and cropping, landmarks and
  embedding (\<open>withFaceLandmarks(true).withFaceDescriptor()\<close>; \<open>None\<close> when it yields
  nothing).
\<close>

datatype load_outcome = LoadOk int | LoadFails error

record call_env =
  loadOutcome :: load_outcome
  decodeImage :: "8 word list \<Rightarrow> error option"
  detectFace :: "8 word list \<Rightarrow> error + bool"
  computeDescriptor :: "8 word list \<Rightarrow> error + real list option"

text \<open>
  \<open>await loadModels()\<close>: the error thrown at the caller, if any, and the state after.
  A call of \<open>extractFaceDescriptor\<close> is modelled from its start to its end, with the
  settlement of the load it waits for happening in between; other requests that the
  event loop could run between its \<open>await\<close>s are not interleaved.
\<close>

definition await_loadModels ::
  "load_outcome \<Rightarrow> int \<Rightarrow> 'k module_state \<Rightarrow> error option \<times> 'k module_state" where
  "await_loadModels outcome currentTime s =
     (case loadModels currentTime s of
        (Resolved, s1) \<Rightarrow> (None, s1)
      | (Pending p, s1) \<Rightarrow>
          (case outcome of
             LoadOk now \<Rightarrow> (None, then_handler now s1)
           | LoadFails e \<Rightarrow> (Some e, catch_handler s1)))"

definition await_loadModels_server ::
  "load_outcome \<Rightarrow> 'k module_state \<Rightarrow> error option \<times> 'k module_state" where
  "await_loadModels_server outcome s =
     (case loadModels_server s of
        (Resolved, s1) \<Rightarrow> (None, s1)
      | (Pending p, s1) \<Rightarrow>
          (case outcome of
             LoadOk now \<Rightarrow> (None, server_loaded s1)
           | LoadFails e \<Rightarrow> (Some e, server_failed s1)))"

text \<open>
  The pipeline after a cache miss, common to both modules: the result is the descriptor,
  or \<open>Inr None\<close> for \<open>return null\<close>, or \<open>Inl e\<close> for an exception thrown inside.
\<close>

definition run_pipeline :: "call_env \<Rightarrow> 8 word list \<Rightarrow> error + real list option" where
  "run_pipeline env imageBuffer =
     (case decodeImage env imageBuffer of
        Some e \<Rightarrow> Inl e
      | None \<Rightarrow>
          (case detectFace env imageBuffer of
             Inl e \<Rightarrow> Inl e
           | Inr False \<Rightarrow> Inr None
           | Inr True \<Rightarrow>
               (case computeDescriptor env imageBuffer of
                  Inl e \<Rightarrow> Inl e
                | Inr None \<Rightarrow> Inr None
                | Inr (Some descriptor) \<Rightarrow> Inr (Some descriptor))))"

text \<open>
  \<open>extractFaceDescriptor\<close> of \<open>src/utils/db.js\<close>. The whole body, \<open>await loadModels()\<close>
  included, stands in \<open>try { ... } catch (error) { return null; }\<close>. The result is
  \<open>Inl e\<close> when the returned promise rejects with \<open>e\<close>, \<open>Inr None\<close> for \<open>null\<close>.
\<close>

definition extractFaceDescriptor ::
  "call_env \<Rightarrow> 8 word list \<Rightarrow> int \<Rightarrow> int module_state
     \<Rightarrow> (error + real list option) \<times> int module_state" where
  "extractFaceDescriptor env imageBuffer currentTime s =
     (case await_loadModels (loadOutcome env) currentTime s of
        (Some e, s1) \<Rightarrow> (Inr None, s1)
      | (None, s1) \<Rightarrow>
          (let bufferHash = hashBuffer imageBuffer
           in if map_has bufferHash (descriptorCache s1)
              then (Inr (map_get bufferHash (descriptorCache s1)),
                    touch bufferHash
                      (s1\<lparr>cacheAccessOrder := updateCacheAccess bufferHash (cacheAccessOrder s1)\<rparr>))
              else (let s2 = s1\<lparr>pipelineRuns := pipelineRuns s1 + 1\<rparr>
                    in case run_pipeline env imageBuffer of
                         Inl e \<Rightarrow> (Inr None, s2)
                       | Inr None \<Rightarrow> (Inr None, s2)
                       | Inr (Some descriptor) \<Rightarrow>
                           (Inr (Some descriptor), cache_insert bufferHash descriptor s2))))"

text \<open>
  \<open>extractFaceDescriptor\<close> of \<open>src/server/utils/faceRecognition.js\<close>: the cache is
  consulted first, \<open>await loadModels()\<close> stands before the \<open>try\<close>, the pipeline inside.
\<close>

definition extractFaceDescriptor_server ::
  "call_env \<Rightarrow> 8 word list \<Rightarrow> string module_state
     \<Rightarrow> (error + real list option) \<times> string module_state" where
  "extractFaceDescriptor_server env imageBuffer s =
     (let cacheKey = take 50 (base64 imageBuffer)
      in if map_has cacheKey (descriptorCache s)
         then (Inr (map_get cacheKey (descriptorCache s)), touch cacheKey s)
         else (case await_loadModels_server (loadOutcome env) s of
                 (Some e, s1) \<Rightarrow> (Inl e, s1)
               | (None, s1) \<Rightarrow>
                   (let s2 = s1\<lparr>pipelineRuns := pipelineRuns s1 + 1\<rparr>
                    in case run_pipeline env imageBuffer of
                         Inl e \<Rightarrow> (Inr None, s2)
                       | Inr None \<Rightarrow> (Inr None, s2)
                       | Inr (Some descriptor) \<Rightarrow>
                           (Inr (Some descriptor), cache_insert_server cacheKey descriptor s2))))"

text \<open>A sequence of calls, one after the other, each with its environment.\<close>

fun extract_all ::
  "(call_env \<times> 8 word list \<times> int) list \<Rightarrow> int module_state \<Rightarrow> int module_state" where
  "extract_all [] s = s"
| "extract_all ((env, imageBuffer, currentTime) # calls) s =
     extract_all calls (snd (extractFaceDescriptor env imageBuffer currentTime s))"

fun extract_all_server ::
  "(call_env \<times> 8 word list) list \<Rightarrow> string module_state \<Rightarrow> string module_state" where
  "extract_all_server [] s = s"
| "extract_all_server ((env, imageBuffer) # calls) s =
     extract_all_server calls (snd (extractFaceDescriptor_server env imageBuffer s))"

text \<open>The keys of the cache.\<close>

definition cache_keys :: "'k module_state \<Rightarrow> 'k list" where
  "cache_keys s = map fst (descriptorCache s)"

subsection \<open>Example environments\<close>

text \<open>
  An image with a face whose descriptor is \<open>[1, 2]\<close>, an image without a face, and a
  pipeline whose decoder throws; the model load succeeds (completing at time \<open>0\<close>) in
  the first three and fails in the last.
\<close>

definition env_face :: call_env where
  "env_face =
     \<lparr>loadOutcome = LoadOk 0, decodeImage = (\<lambda>b. None), detectFace = (\<lambda>b. Inr True),
      computeDescriptor = (\<lambda>b. Inr (Some [1, 2]))\<rparr>"

definition env_no_face :: call_env where
  "env_no_face =
     \<lparr>loadOutcome = LoadOk 0, decodeImage = (\<lambda>b. None), detectFace = (\<lambda>b. Inr False),
      computeDescriptor = (\<lambda>b. Inr None)\<rparr>"

definition env_decode_throws :: call_env where
  "env_decode_throws =
     \<lparr>loadOutcome = LoadOk 0, decodeImage = (\<lambda>b. Some (Error ''decode'')),
      detectFace = (\<lambda>b. Inr True), computeDescriptor = (\<lambda>b. Inr (Some [1, 2]))\<rparr>"

definition env_load_fails :: call_env where
  "env_load_fails =
     \<lparr>loadOutcome = LoadFails (Error ''models''), decodeImage = (\<lambda>b. None),
      detectFace = (\<lambda>b. Inr True), computeDescriptor = (\<lambda>b. Inr (Some [1, 2]))\<rparr>"

text \<open>
  One hundred calls with the one-byte images \<open>[0]\<close>, ..., \<open>[99]\<close>, each with a face:
  they fill an empty cache to its capacity.
\<close>

definition filler_calls :: "(call_env \<times> 8 word list) list" where
  "filler_calls = map (\<lambda>i. (env_face, [of_nat i])) [0..<100]"

text \<open>
  The cache key of the one-byte image \<open>[i]\<close> in the server module, and three states of a
  run of the server module: after the hundred calls above; after one more call with the
  image \<open>[0]\<close>, which the cache answers; and after a call with the new image \<open>[100]\<close>.
\<close>

definition filler_key :: "nat \<Rightarrow> string" where
  "filler_key i = take 50 (base64 [of_nat i])"

definition server_full :: "string module_state" where
  "server_full = extract_all_server filler_calls initial_state"

definition server_after_read :: "string module_state" where
  "server_after_read = snd (extractFaceDescriptor_server env_face [of_nat 0] server_full)"

definition server_after_insert :: "string module_state" where
  "server_after_insert = snd (extractFaceDescriptor_server env_face [of_nat 100] server_after_read)"

text \<open>
  A state of the utils module with a full cache: the keys \<open>0\<close>, ..., \<open>99\<close>, last used
  in this order.
\<close>

definition utils_full :: "int module_state" where
  "utils_full =
     initial_state\<lparr>descriptorCache := map (\<lambda>i. (int i, [1, 2])) [0..<100],
                   cacheAccessOrder := map int [0..<100],
                   tick := 100, lastUse := (\<lambda>k. nat k)\<rparr>"

section \<open>Auxiliary notions for the proofs\<close>

text \<open>A computed value that is a non-negative number or \<open>Infinity\<close>.\<close>

definition nonneg_num :: "jsnum \<Rightarrow> bool" where
  "nonneg_num x = (case x of Num r \<Rightarrow> 0 \<le> r | PosInfinity \<Rightarrow> True | _ \<Rightarrow> False)"

text \<open>
  The factors by which one rounding moves a value that is neither subnormal nor too large
  for a double, and a bound that keeps values away from the subnormal range.
\<close>

definition rel_lo :: real where
  "rel_lo = 1 - 1 / 2 ^ 53"

definition rel_hi :: real where
  "rel_hi = 1 + 1 / 2 ^ 53"

definition tiny :: real where
  "tiny = 1 / 2 ^ 1002"

text \<open>
  The computed value \<open>v\<close> stands for the non-negative real \<open>x\<close> after at most \<open>k\<close>
  roundings: it is \<open>Infinity\<close>, or a number within the factors \<open>rel_lo ^ k\<close> and
  \<open>rel_hi ^ k\<close> of \<open>x\<close> that is zero or not below \<open>tiny\<close>.
\<close>

definition approx :: "nat \<Rightarrow> real \<Rightarrow> jsnum \<Rightarrow> bool" where
  "approx k x v =
     (0 \<le> x \<and>
      (case v of
         PosInfinity \<Rightarrow> True
       | Num y \<Rightarrow> rel_lo ^ k * x \<le> y \<and> y \<le> rel_hi ^ k * x \<and> (y = 0 \<or> tiny \<le> y)
       | _ \<Rightarrow> False))"

text \<open>The best distance so far, when the early return has not fired: not below \<open>threshold * 0.7\<close>.\<close>

definition above_cut :: "real \<Rightarrow> search \<Rightarrow> bool" where
  "above_cut th st =
     (case bestDistance st of
        PosInfinity \<Rightarrow> True
      | Num b \<Rightarrow> \<not> js_lt (Num b) (early_cut th)
      | _ \<Rightarrow> False)"

text \<open>The best distance so far is \<open>Infinity\<close> or a number.\<close>

definition inf_or_num :: "search \<Rightarrow> bool" where
  "inf_or_num st = (case bestDistance st of PosInfinity \<Rightarrow> True | Num b \<Rightarrow> True | _ \<Rightarrow> False)"

text \<open>
  A candidate that cannot be compared with the query: its descriptor is missing, or has
  fewer entries than the query (the empty array included), so that a read past its end
  turns the distance into NaN.
\<close>

definition unusable :: "real list \<Rightarrow> profile \<Rightarrow> bool" where
  "unusable targetArray p =
     (case faceDescriptor p of None \<Rightarrow> True | Some d \<Rightarrow> length d < length targetArray)"

text \<open>Two runs of a loop agree on everything but the ghost counter.\<close>

definition same_best :: "search \<Rightarrow> search \<Rightarrow> bool" where
  "same_best st st' = (bestMatch st = bestMatch st' \<and> bestDistance st = bestDistance st')"

fun same_scan :: "scan \<Rightarrow> scan \<Rightarrow> bool" where
  "same_scan (Continue st) (Continue st') = same_best st st'"
| "same_scan (Return r n) (Return r' n') = (r = r')"
| "same_scan _ _ = False"

text \<open>
  The invariant of the cache of \<open>src/utils/db.js\<close>: the map has no duplicate key,
  \<open>cacheAccessOrder\<close> lists exactly its keys, each once, in the order of their last
  use, and the map holds at most \<open>CACHE_SIZE_LIMIT\<close> entries.
\<close>

definition cache_ok :: "'k module_state \<Rightarrow> bool" where
  "cache_ok s =
     (distinct (cache_keys s) \<and> distinct (cacheAccessOrder s)
      \<and> set (cacheAccessOrder s) = set (cache_keys s)
      \<and> length (descriptorCache s) \<le> CACHE_SIZE_LIMIT
      \<and> sorted_wrt (\<lambda>a b. lastUse s a < lastUse s b) (cacheAccessOrder s)
      \<and> list_all (\<lambda>k. lastUse s k < tick s) (cacheAccessOrder s))"

text \<open>The server module after calls with the images \<open>[0]\<close>, ..., \<open>[n - 1]\<close>.\<close>

definition fill_state :: "nat \<Rightarrow> string module_state" where
  "fill_state n = extract_all_server (map (\<lambda>i. (env_face, [of_nat i])) [0..<n]) initial_state"


section \<open>Facts about rounding\<close>

lemma rne_of_int [simp]: "rne (of_int k) = k"
  by (simp add: rne_def)

lemma rne_bounds: "\<lfloor>m\<rfloor> \<le> rne m" "rne m \<le> \<lfloor>m\<rfloor> + 1"
  by (simp_all add: rne_def Let_def)

lemma rne_nonneg: "0 \<le> m \<Longrightarrow> 0 \<le> rne m"
  using rne_bounds(1) [of m] by (simp add: order_trans [of 0 "\<lfloor>m\<rfloor>"])

lemma rne_le: 
  assumes "m \<le> of_int D" shows "rne m \<le> D"
proof (cases "m = of_int D")
  case True
  then show ?thesis by simp
next
  case False
  with assms have "m < of_int D" by simp
  then have "\<lfloor>m\<rfloor> < D" by (simp add: floor_less_iff)
  with rne_bounds(2) [of m] show ?thesis by linarith
qed

lemma rne_nonpos: "m \<le> 0 \<Longrightarrow> rne m \<le> 0"
  using rne_le [of m 0] by simp

lemma rne_near: 
  assumes "of_int k - 1 / 2 < m" "m < of_int k + 1 / 2" shows "rne m = k"
proof (cases "of_int k \<le> m")
  case True
  then have "\<lfloor>m\<rfloor> = k" using assms(2) by (intro floor_unique) linarith+
  then show ?thesis using assms(2) by (simp add: rne_def)
next
  case False
  then have "\<lfloor>m\<rfloor> = k - 1" using assms(1) by (intro floor_unique) (simp, linarith)+
  then show ?thesis using assms(1) by (simp add: rne_def)
qed


lemma ieee_not_NaN [simp]: "ieee x \<noteq> NaN"
  by (simp add: ieee_def Let_def)

lemma ieee_0 [simp]: "ieee 0 = Num 0"
  by (simp add: ieee_def)

lemma quantum_pos [simp]: "0 < quantum x" "0 \<le> quantum x" "quantum x \<noteq> 0"
  by (simp_all add: quantum_def)

lemma ieee_nonneg: 
  assumes "0 \<le> x" shows "ieee x = PosInfinity \<or> (\<exists>y\<ge>0. ieee x = Num y)"
proof (cases "x = 0")
  case True
  then show ?thesis by simp
next
  case False
  from assms have "0 \<le> x / quantum x" by simp
  then have "0 \<le> rne (x / quantum x)" by (rule rne_nonneg)
  then have "0 \<le> of_int (rne (x / quantum x)) * quantum x" by simp
  then show ?thesis
    using False assms by (simp add: ieee_def Let_def)
qed

lemma ieee_nonpos: 
  assumes "x \<le> 0" shows "ieee x = NegInfinity \<or> (\<exists>y\<le>0. ieee x = Num y)"
proof (cases "x = 0")
  case True
  then show ?thesis by simp
next
  case False
  from assms have "x / quantum x \<le> 0" by (simp add: divide_le_0_iff)
  then have "rne (x / quantum x) \<le> 0" by (rule rne_nonpos)
  then have "of_int (rne (x / quantum x)) * quantum x \<le> 0" by (simp add: mult_le_0_iff)
  then show ?thesis
    using False assms by (simp add: ieee_def Let_def)
qed

lemma binade_eq:
  assumes "2 powr of_int e \<le> \<bar>x\<bar>" "\<bar>x\<bar> < 2 powr of_int (e + 1)" "- 1022 \<le> e"
  shows "binade x = e"
proof -
  have "0 < (2::real) powr of_int e" by simp
  then have "0 < \<bar>x\<bar>" using assms(1) by linarith
  then have "\<lfloor>log 2 \<bar>x\<bar>\<rfloor> = e"
    using assms(1,2) by (simp add: floor_log_eq_powr_iff)
  then show ?thesis using assms(3) by (simp add: binade_def)
qed

lemma ieee_eval:
  assumes "2 powr of_int e \<le> \<bar>x\<bar>" "\<bar>x\<bar> < 2 powr of_int (e + 1)" "- 1022 \<le> e"
    and "q = 2 powr of_int (e - 52)" and "rne (x / q) = k" and "\<bar>of_int k * q\<bar> < 2 ^ 1024"
  shows "ieee x = Num (of_int k * q)"
proof -
  have "0 < (2::real) powr of_int e" by simp
  then have "x \<noteq> 0" using assms(1) by auto
  moreover have "quantum x = q"
    by (simp only: quantum_def binade_eq [OF assms(1-3)] assms(4))
  ultimately show ?thesis
    using assms(5,6) by (simp add: ieee_def Let_def)
qed

lemma binade_le:
  assumes "x \<noteq> 0" "\<bar>x\<bar> < 2 powr of_int u" "- 1022 \<le> u - 1"
  shows "binade x \<le> u - 1"
proof -
  have "log 2 \<bar>x\<bar> < of_int u"
    using assms(1,2) by (simp add: log_less_iff)
  then have "\<lfloor>log 2 \<bar>x\<bar>\<rfloor> < u" by (simp add: floor_less_iff)
  then show ?thesis using assms(3) by (simp add: binade_def)
qed

lemma two_powr_int: "0 \<le> n \<Longrightarrow> (2::real) powr of_int n = of_int (2 ^ nat n)"
  by (simp add: powr_realpow [symmetric])

lemma quantum_ratio:
  assumes "binade x - 52 \<le> j"
  shows "2 powr of_int j / quantum x = of_int (2 ^ nat (j - (binade x - 52)))"
proof -
  have "2 powr of_int j / quantum x = 2 powr (of_int j - of_int (binade x - 52))"
    by (simp only: quantum_def powr_diff)
  also have "\<dots> = 2 powr of_int (j - (binade x - 52))" by simp
  also have "\<dots> = of_int (2 ^ nat (j - (binade x - 52)))"
    using assms by (intro two_powr_int) simp
  finally show ?thesis .
qed

lemma ieee_exact:
  assumes "x = of_int M * 2 powr of_int j" "\<bar>M\<bar> < 2 ^ 53" "- 1074 \<le> j" "j \<le> 971"
  shows "ieee x = Num x"
proof (cases "x = 0")
  case True
  then show ?thesis by simp
next
  case False
  have "\<bar>x\<bar> = of_int \<bar>M\<bar> * 2 powr of_int j"
    by (simp add: assms(1) abs_mult)
  also have "\<dots> < of_int (2 ^ 53) * 2 powr of_int j"
    using assms(2) by (intro mult_strict_right_mono) (simp_all only: of_int_less_iff powr_gt_zero)
  also have "\<dots> = 2 powr of_int (j + 53)"
    by (simp add: powr_add powr_numeral mult.commute)
  finally have lt: "\<bar>x\<bar> < 2 powr of_int (j + 53)" .
  then have "binade x \<le> j + 53 - 1"
    using False assms(3) by (intro binade_le) simp_all
  then have n: "binade x - 52 \<le> j" by simp
  have "x / quantum x = of_int M * (2 powr of_int j / quantum x)"
    by (simp add: assms(1))
  also have "\<dots> = of_int (M * 2 ^ nat (j - (binade x - 52)))"
    by (simp only: quantum_ratio [OF n] of_int_mult)
  finally have xq: "x / quantum x = of_int (M * 2 ^ nat (j - (binade x - 52)))" .
  have "of_int (rne (x / quantum x)) * quantum x = x / quantum x * quantum x"
    by (simp only: xq rne_of_int)
  then have y: "of_int (rne (x / quantum x)) * quantum x = x" by simp
  have "2 powr of_int (j + 53) \<le> (2::real) powr of_int 1024"
    using assms(4) by (intro powr_mono) simp_all
  then have "\<bar>x\<bar> < 2 ^ 1024"
    using lt by (simp add: powr_numeral)
  then show ?thesis
    using False by (simp add: ieee_def Let_def y)
qed

lemma binade_mono:
  assumes "0 < x" "x \<le> y" shows "binade x \<le> binade y"
proof -
  have "log 2 \<bar>x\<bar> \<le> log 2 \<bar>y\<bar>" using assms by simp
  then have "\<lfloor>log 2 \<bar>x\<bar>\<rfloor> \<le> \<lfloor>log 2 \<bar>y\<bar>\<rfloor>" by (rule floor_mono)
  then show ?thesis by (simp add: binade_def)
qed

lemma ieee_le_double:
  assumes "is_double d" "0 \<le> d" "x \<le> d"
  shows "js_le (ieee x) (Num d)"
proof (cases "x \<le> 0")
  case True
  then show ?thesis using ieee_nonpos [OF True] assms(2) by auto
next
  case False
  then have x: "0 < x" by simp
  then have d: "0 < d" using assms(3) by simp
  define R where "R = rne (d / quantum d)"
  have fixed: "ieee d = Num d" using assms(1) by (simp add: is_double_def)
  have small: "\<not> 2 ^ 1024 \<le> \<bar>of_int R * quantum d\<bar>" and dR: "d = of_int R * quantum d"
    using fixed d by (simp_all add: ieee_def Let_def R_def [symmetric] split: if_splits)
  have n: "binade x - 52 \<le> binade d - 52" using binade_mono [OF x assms(3)] by simp
  define K where "K = R * 2 ^ nat (binade d - 52 - (binade x - 52))"
  have "d / quantum x = of_int R * (2 powr of_int (binade d - 52) / quantum x)"
    by (subst dR) (simp add: quantum_def [of d])
  also have "\<dots> = of_int K"
    by (simp only: quantum_ratio [OF n] of_int_mult K_def)
  finally have dq: "d / quantum x = of_int K" .
  have "x / quantum x \<le> d / quantum x" using assms(3) by (simp add: divide_right_mono)
  then have "rne (x / quantum x) \<le> K"
    by (intro rne_le) (simp only: dq)
  then have "of_int (rne (x / quantum x)) \<le> (of_int K :: real)"
    by (simp only: of_int_le_iff)
  then have "of_int (rne (x / quantum x)) * quantum x \<le> of_int K * quantum x"
    by (intro mult_right_mono) simp_all
  also have "\<dots> = d"
    by (simp add: dq [symmetric])
  finally have le: "of_int (rne (x / quantum x)) * quantum x \<le> d" .
  have "0 \<le> rne (x / quantum x)" using x by (intro rne_nonneg) simp
  then have nn: "0 \<le> of_int (rne (x / quantum x)) * quantum x" by simp
  have "\<not> 2 ^ 1024 \<le> \<bar>of_int (rne (x / quantum x)) * quantum x\<bar>"
    using small le nn dR d by simp
  then show ?thesis
    using x le by (simp add: ieee_def Let_def)
qed

lemma rne_close: "\<bar>of_int (rne m) - m\<bar> \<le> 1 / 2"
proof -
  have f: "of_int \<lfloor>m\<rfloor> \<le> m" "m < of_int \<lfloor>m\<rfloor> + 1" by linarith+
  show ?thesis
    using f by (auto simp: rne_def Let_def abs_le_iff)
qed

lemma rne_ge: 
  assumes "of_int D \<le> m" shows "D \<le> rne m"
proof -
  have "D \<le> \<lfloor>m\<rfloor>" using assms by (simp add: le_floor_iff)
  with rne_bounds(1) [of m] show ?thesis by linarith
qed

lemma rne_minus: "rne (- m) = - rne m"
proof (cases "m = of_int \<lfloor>m\<rfloor>")
  case True
  then obtain k where "m = of_int k" by metis
  then have "rne (- m) = rne (of_int (- k))" by simp
  also have "\<dots> = - k" by (rule rne_of_int)
  finally show ?thesis using \<open>m = of_int k\<close> by simp
next
  case False
  then have lt: "of_int \<lfloor>m\<rfloor> < m" by linarith
  have fl: "\<lfloor>- m\<rfloor> = - \<lfloor>m\<rfloor> - 1"
    by (rule floor_unique) (use lt in \<open>simp_all\<close>, linarith)
  show ?thesis
    unfolding rne_def Let_def fl by (auto simp: algebra_simps)
qed

lemma binade_floor:
  assumes "1 / 2 ^ 1022 \<le> \<bar>x\<bar>"
  shows "binade x = \<lfloor>log 2 \<bar>x\<bar>\<rfloor>" "2 powr of_int (binade x) \<le> \<bar>x\<bar>"
proof -
  have "(0::real) < 1 / 2 ^ 1022" by simp
  then have x: "0 < \<bar>x\<bar>" using assms by linarith
  have "(2::real) powr of_int (- 1022) \<le> \<bar>x\<bar>"
    using assms by (simp add: powr_minus_divide)
  then have "of_int (- 1022) \<le> log 2 \<bar>x\<bar>" using x by (subst le_log_iff) simp_all
  then have "- 1022 \<le> \<lfloor>log 2 \<bar>x\<bar>\<rfloor>" by (simp only: le_floor_iff)
  then show b: "binade x = \<lfloor>log 2 \<bar>x\<bar>\<rfloor>" by (simp add: binade_def)
  have "of_int \<lfloor>log 2 \<bar>x\<bar>\<rfloor> \<le> log 2 \<bar>x\<bar>" by simp
  then show "2 powr of_int (binade x) \<le> \<bar>x\<bar>"
    unfolding b using x by (subst (asm) le_log_iff) simp_all
qed

lemma below_next_binade:
  assumes "x \<noteq> 0"
  shows "\<bar>x\<bar> < 2 powr of_int (binade x + 1)"
proof -
  have x: "0 < \<bar>x\<bar>" using assms by simp
  have "log 2 \<bar>x\<bar> < of_int (\<lfloor>log 2 \<bar>x\<bar>\<rfloor> + 1)" by linarith
  also have "\<dots> \<le> of_int (binade x + 1)" by (simp add: binade_def)
  finally have "log 2 \<bar>x\<bar> < of_int (binade x + 1)" .
  then show ?thesis using x by (subst (asm) log_less_iff) simp_all
qed

lemma ieee_cases:
  assumes "x \<noteq> 0"
  shows "ieee x = PosInfinity \<or> ieee x = NegInfinity
         \<or> ieee x = Num (of_int (rne (x / quantum x)) * quantum x)"
  using assms by (simp add: ieee_def Let_def)

lemma ieee_rel:
  assumes "1 / 2 ^ 1022 \<le> \<bar>x\<bar>"
  shows "ieee x = PosInfinity \<or> ieee x = NegInfinity
         \<or> (\<exists>y. ieee x = Num y \<and> \<bar>y - x\<bar> \<le> \<bar>x\<bar> / 2 ^ 53)"
proof -
  have "(0::real) < 1 / 2 ^ 1022" by simp
  then have x: "x \<noteq> 0" using assms by auto
  define y where "y = of_int (rne (x / quantum x)) * quantum x"
  have "\<bar>y - x\<bar> = \<bar>of_int (rne (x / quantum x)) - x / quantum x\<bar> * quantum x"
  proof -
    have "y - x = (of_int (rne (x / quantum x)) - x / quantum x) * quantum x"
      by (simp add: y_def algebra_simps)
    then show ?thesis by (simp add: abs_mult)
  qed
  also have "\<dots> \<le> 1 / 2 * quantum x"
    by (intro mult_right_mono rne_close) simp
  also have "\<dots> = 2 powr of_int (binade x) / 2 ^ 53"
    by (simp add: quantum_def powr_diff powr_numeral)
  also have "\<dots> \<le> \<bar>x\<bar> / 2 ^ 53"
    using binade_floor(2) [OF assms] by (intro divide_right_mono) simp_all
  finally have "\<bar>y - x\<bar> \<le> \<bar>x\<bar> / 2 ^ 53" .
  then show ?thesis using ieee_cases [OF x] unfolding y_def by blast
qed

lemma ieee_ge_double:
  assumes "is_double d" "0 < d" "d \<le> x"
  shows "js_le (Num d) (ieee x)"
proof -
  have x: "0 < x" using assms(2,3) by simp
  define R where "R = rne (d / quantum d)"
  have fixed: "ieee d = Num d" using assms(1) by (simp add: is_double_def)
  have dR: "d = of_int R * quantum d"
    using fixed assms(2) by (simp add: ieee_def Let_def R_def [symmetric] split: if_splits)
  define y where "y = of_int (rne (x / quantum x)) * quantum x"
  have le: "binade d \<le> binade x" using binade_mono [OF assms(2,3)] .
  have "d \<le> y"
  proof (cases "binade d = binade x")
    case True
    then have q: "quantum x = quantum d" by (simp add: quantum_def)
    have "d / quantum d = of_int R * quantum d / quantum d" using dR by simp
    then have "d / quantum d = of_int R" by simp
    moreover have "d / quantum d \<le> x / quantum d"
      using assms(3) by (intro divide_right_mono) simp_all
    ultimately have "of_int R \<le> x / quantum x"
      by (simp only: q)
    then have "R \<le> rne (x / quantum x)" by (rule rne_ge)
    then have "(of_int R :: real) \<le> of_int (rne (x / quantum x))" by (simp only: of_int_le_iff)
    then have "of_int R * quantum x \<le> y"
      unfolding y_def by (intro mult_right_mono) simp_all
    then show ?thesis using dR q by simp
  next
    case False
    with le have lt: "binade d + 1 \<le> binade x" by simp
    then have "- 1022 < binade x" using le by (simp add: binade_def)
    then have bx: "binade x = \<lfloor>log 2 \<bar>x\<bar>\<rfloor>" by (simp add: binade_def)
    have "of_int \<lfloor>log 2 \<bar>x\<bar>\<rfloor> \<le> log 2 \<bar>x\<bar>" by simp
    then have px: "2 powr of_int (binade x) \<le> x"
      unfolding bx using x by (subst (asm) le_log_iff) simp_all
    have "2 powr of_int (binade x) / quantum x = of_int (2 ^ nat (binade x - (binade x - 52)))"
      by (rule quantum_ratio) simp
    then have "2 powr of_int (binade x) / quantum x = of_int (2 ^ 52)" by simp
    moreover have "2 powr of_int (binade x) / quantum x \<le> x / quantum x"
      using px by (intro divide_right_mono) simp_all
    ultimately have "of_int (2 ^ 52) \<le> x / quantum x" by (simp only:)
    then have "2 ^ 52 \<le> rne (x / quantum x)" by (rule rne_ge)
    then have "(of_int (2 ^ 52) :: real) \<le> of_int (rne (x / quantum x))"
      by (simp only: of_int_le_iff)
    then have m: "of_int (2 ^ 52) * quantum x \<le> y"
      unfolding y_def by (intro mult_right_mono) simp_all
    have "d < 2 powr of_int (binade d + 1)"
      using below_next_binade [of d] assms(2) by simp
    also have "\<dots> \<le> 2 powr of_int (binade x)"
      using lt by (intro powr_mono) simp_all
    also have "\<dots> = of_int (2 ^ 52) * quantum x"
      by (simp add: quantum_def powr_diff powr_numeral)
    also note m
    finally show ?thesis by simp
  qed
  then show ?thesis
    using x ieee_cases [of x] ieee_nonneg [of x] unfolding y_def by auto
qed

lemma is_double_0 [simp]: "is_double 0" by (simp add: is_double_def)

lemma is_double_1 [simp]: "is_double 1"
  unfolding is_double_def by (rule ieee_exact [where M = 1 and j = 0]) simp_all

lemma is_double_half [simp]: "is_double (1 / 2)"
  unfolding is_double_def
  by (rule ieee_exact [where M = 1 and j = "- 1"]) (simp_all add: powr_minus_divide)

text \<open>The values the examples below compute with.\<close>

lemma ieee_quarter: "ieee (1 / 4) = Num (1 / 4)" "ieee (- (1 / 4)) = Num (- (1 / 4))"
  by (rule ieee_exact [where M = 1 and j = "- 2"], simp_all add: powr_minus_divide)
     (rule ieee_exact [where M = "- 1" and j = "- 2"], simp_all add: powr_minus_divide)

lemma ieee_half: "ieee (1 / 2) = Num (1 / 2)" "ieee (- (1 / 2)) = Num (- (1 / 2))"
  by (rule ieee_exact [where M = 1 and j = "- 1"], simp_all add: powr_minus_divide)
     (rule ieee_exact [where M = "- 1" and j = "- 1"], simp_all add: powr_minus_divide)

lemma ieee_sixteenth: "ieee (1 / 16) = Num (1 / 16)"
  by (rule ieee_exact [where M = 1 and j = "- 4"]) (simp_all add: powr_minus_divide)

lemma ieee_1: "ieee 1 = Num 1" "ieee (- 1) = Num (- 1)"
  by (rule ieee_exact [where M = 1 and j = 0], simp_all)
     (rule ieee_exact [where M = "- 1" and j = 0], simp_all)

lemma ieee_2: "ieee 2 = Num 2"
  by (rule ieee_exact [where M = 2 and j = 0]) simp_all

text \<open>The literal \<open>0.7\<close>, and \<open>0.5 * 0.7\<close>.\<close>

lemma ieee_seven_tenths: "ieee (7 / 10) = Num (3152519739159347 / 4503599627370496)"
proof -
  have "ieee (7 / 10) = Num (of_int 6305039478318694 * (1 / 2 ^ 53))"
    by (rule ieee_eval [where e = "- 1"]) (simp_all add: powr_minus_divide rne_def)
  then show ?thesis by simp
qed

lemma early_cut_half: "early_cut (1 / 2) = Num (3152519739159347 / 9007199254740992)"
proof -
  have "ieee (3152519739159347 / 9007199254740992) = Num (3152519739159347 / 9007199254740992)"
    by (rule ieee_exact [where M = 3152519739159347 and j = "- 53"])
       (simp_all add: powr_minus_divide)
  then show ?thesis by (simp add: early_cut_def ieee_seven_tenths)
qed

text \<open>Rounding a square root: the nearest integer is found by squaring.\<close>

lemma sqrt_scaled: "0 \<le> c \<Longrightarrow> sqrt x * c = sqrt (x * c\<^sup>2)"
  by (simp add: real_sqrt_mult)

lemma rne_sqrt:
  assumes "0 < k" "(of_int k - 1 / 2)\<^sup>2 < x" "x < (of_int k + 1 / 2)\<^sup>2"
  shows "rne (sqrt x) = k"
proof (rule rne_near)
  show "of_int k - 1 / 2 < sqrt x"
    using assms(2) by (rule real_less_rsqrt)
  show "sqrt x < of_int k + 1 / 2"
    using assms(1,3) by (intro real_less_lsqrt) simp_all
qed

lemma ieee_sqrt_2: "ieee (sqrt 2) = Num (6369051672525773 / 4503599627370496)"
proof -
  have "rne (sqrt 2 / (1 / 2 ^ 52)) = 6369051672525773"
    by (simp add: sqrt_scaled) (rule rne_sqrt; simp add: power2_eq_square)
  then have "ieee (sqrt 2) = Num (of_int 6369051672525773 * (1 / 2 ^ 52))"
    by (intro ieee_eval [where e = 0])
       (simp_all add: powr_minus_divide real_le_rsqrt real_less_lsqrt)
  then show ?thesis by simp
qed

text \<open>\<open>threshold * 0.7\<close> does not exceed a threshold that is a double, or is not positive.\<close>

lemma early_cut_le:
  assumes "is_double th" "0 \<le> th"
  shows "js_le (early_cut th) (Num th)"
proof -
  have "th * (3152519739159347 / 4503599627370496) \<le> th"
    using assms(2) by simp
  then show ?thesis
    using assms by (simp add: early_cut_def ieee_seven_tenths ieee_le_double)
qed

lemma early_cut_neg:
  assumes "th \<le> 0"
  shows "js_le (early_cut th) (Num 0)"
proof -
  have "th * (3152519739159347 / 4503599627370496) \<le> 0"
    using assms by (simp add: mult_le_0_iff)
  from ieee_nonpos [OF this] show ?thesis
    by (auto simp: early_cut_def ieee_seven_tenths)
qed

lemma below_cut_le:
  assumes "is_double th" "0 \<le> e" "js_lt (Num e) (early_cut th)"
  shows "e \<le> th"
proof (cases "0 \<le> th")
  case True
  from early_cut_le [OF assms(1) True] assms(3) show ?thesis
    by (cases "early_cut th") simp_all
next
  case False
  then have "js_le (early_cut th) (Num 0)" by (intro early_cut_neg) simp
  with assms(2,3) show ?thesis
    by (cases "early_cut th") simp_all
qed

lemma not_below_cut: "\<not> js_lt (Num b) c \<Longrightarrow> b \<le> e \<Longrightarrow> \<not> js_lt (Num e) c"
  by (cases c) simp_all

lemma js_lt_PosInfinity [simp]: "js_lt PosInfinity x = False"
  by (cases x) simp_all

lemma js_le_PosInfinity [simp]: "js_le PosInfinity (Num r) = False"
  by simp

section \<open>Facts about the distance loops\<close>

lemma nonneg_num_simps [simp]:
  "nonneg_num (Num r) = (0 \<le> r)" "nonneg_num PosInfinity" "\<not> nonneg_num NaN"
  "\<not> nonneg_num NegInfinity"
  by (simp_all add: nonneg_num_def)

lemma nonneg_num_cases:
  "nonneg_num x \<longleftrightarrow> x = PosInfinity \<or> (\<exists>r\<ge>0. x = Num r)"
  by (cases x) simp_all

lemma nonneg_num_ieee: "0 \<le> x \<Longrightarrow> nonneg_num (ieee x)"
  using ieee_nonneg [of x] by auto

lemma nonneg_num_add: "nonneg_num a \<Longrightarrow> nonneg_num b \<Longrightarrow> nonneg_num (js_add ieee a b)"
  by (cases a; cases b) (simp_all add: nonneg_num_ieee)

lemma js_sub_ieee_not_NaN: "js_sub ieee (Num a) (Num b) \<noteq> NaN"
  by simp

lemma nonneg_num_pow2: "x \<noteq> NaN \<Longrightarrow> nonneg_num (js_pow2 ieee x)"
  by (cases x) (simp_all add: nonneg_num_ieee)

lemma nonneg_num_square: "x \<noteq> NaN \<Longrightarrow> nonneg_num (js_mul ieee x x)"
  by (cases x) (simp_all add: nonneg_num_ieee)

lemma nonneg_num_sqrt: "nonneg_num x \<Longrightarrow> nonneg_num (js_sqrt ieee x)"
  by (cases x) (simp_all add: nonneg_num_ieee)

lemma js_add_NaN_right [simp]: "js_add rnd a NaN = NaN"
  by (cases a) simp_all

lemma js_mul_NaN_right [simp]: "js_mul rnd a NaN = NaN"
  by (cases a) simp_all

lemma sl_step:
  "(\<Sum>i\<leftarrow>[j..<n]. f i) = (if j < n then f j else 0) + (\<Sum>i\<leftarrow>[Suc j..<n]. (f i :: real))"
  by (simp add: upt_conv_Cons)

lemma sl_block4:
  "(\<Sum>i\<leftarrow>[j..<n]. (f i::real)) =
     (if j < n then f j else 0) + (if j + 1 < n then f (j + 1) else 0)
   + (if j + 2 < n then f (j + 2) else 0) + (if j + 3 < n then f (j + 3) else 0)
   + (\<Sum>i\<leftarrow>[j + 4..<n]. f i)"
proof -
  have e: "(\<Sum>i\<leftarrow>[j + k..<n]. f i)
      = (if j + k < n then f (j + k) else 0) + (\<Sum>i\<leftarrow>[j + (k + 1)..<n]. f i)" for k
    using sl_step [where j = "j + k" and n = n and f = f] by simp
  show ?thesis
    using e [of 0] e [of 1] e [of 2] e [of 3]
    by (simp add: add.assoc)
qed

lemma sl_block8:
  "(\<Sum>i\<leftarrow>[j..<n]. (f i::real)) =
     (if j < n then f j else 0) + (if j + 1 < n then f (j + 1) else 0)
   + (if j + 2 < n then f (j + 2) else 0) + (if j + 3 < n then f (j + 3) else 0)
   + (if j + 4 < n then f (j + 4) else 0) + (if j + 5 < n then f (j + 5) else 0)
   + (if j + 6 < n then f (j + 6) else 0) + (if j + 7 < n then f (j + 7) else 0)
   + (\<Sum>i\<leftarrow>[j + 8..<n]. f i)"
proof -
  have e: "(\<Sum>i\<leftarrow>[j + k..<n]. f i)
      = (if j + k < n then f (j + k) else 0) + (\<Sum>i\<leftarrow>[j + (k + 1)..<n]. f i)" for k
    using sl_step [where j = "j + k" and n = n and f = f] by simp
  show ?thesis
    using e [of 0] e [of 1] e [of 2] e [of 3] e [of 4] e [of 5] e [of 6] e [of 7]
    by (simp add: add.assoc)
qed

lemma sum_sq_nonneg: "0 \<le> (\<Sum>i\<leftarrow>xs. ((f i)::real)\<^sup>2)"
  by (induction xs) auto

subsection \<open>Stride 8\<close>

lemma pow_term_cases:
  "pow_term rnd t d k =
     (if k < length t
      then (if k < length d then js_pow2 rnd (rnd (t ! k - d ! k)) else NaN)
      else Num 0)"
  by (simp add: pow_term_def js_index_def)

lemma pow_term_exact:
  "length a \<le> length b \<Longrightarrow>
     pow_term exact a b k = Num (if k < length a then (a ! k - b ! k)\<^sup>2 else 0)"
  by (simp add: pow_term_cases exact_def)

lemma nonneg_num_pow_term: "length t \<le> length d \<Longrightarrow> nonneg_num (pow_term ieee t d k)"
  by (simp add: pow_term_cases nonneg_num_pow2)

lemma js_add_exact: "js_add exact (Num a) (Num b) = Num (a + b)"
  by (simp add: exact_def)

lemma js_mul_exact: "js_mul exact (Num a) (Num b) = Num (a * b)"
  by (simp add: exact_def)

lemma sum8_unfold:
  "j < length t \<Longrightarrow>
     sum8 rnd t d j acc = sum8 rnd t d (j + 8)
       (js_add rnd acc
         (js_add rnd (js_add rnd (js_add rnd (js_add rnd (js_add rnd (js_add rnd (js_add rnd
            (pow_term rnd t d j) (pow_term rnd t d (j + 1))) (pow_term rnd t d (j + 2)))
            (pow_term rnd t d (j + 3))) (pow_term rnd t d (j + 4))) (pow_term rnd t d (j + 5)))
            (pow_term rnd t d (j + 6))) (pow_term rnd t d (j + 7))))"
  by (subst sum8.simps) (simp only: if_True)

lemma sum8_stop: "\<not> j < length t \<Longrightarrow> sum8 rnd t d j acc = acc"
  by (subst sum8.simps) simp

lemma sum8_exact_aux:
  "rnd = exact \<Longrightarrow> length a \<le> length b \<Longrightarrow>
     sum8 rnd a b j (Num s) = Num (s + (\<Sum>i\<leftarrow>[j..<length a]. (a ! i - b ! i)\<^sup>2))"
proof (induction rnd a b j "Num s" arbitrary: s rule: sum8.induct)
  case (1 rnd a b j)
  let ?f = "\<lambda>i. (a ! i - b ! i)\<^sup>2"
  let ?g = "\<lambda>k. if k < length a then ?f k else 0"
  note r = 1(2)
  show ?case
  proof (cases "j < length a")
    case True
    let ?blk = "?g j + ?g (j + 1) + ?g (j + 2) + ?g (j + 3) + ?g (j + 4) + ?g (j + 5)
                + ?g (j + 6) + ?g (j + 7)"
    have "sum8 rnd a b j (Num s) = sum8 rnd a b (j + 8) (Num (s + ?blk))"
      by (subst sum8_unfold [OF True])
         (simp only: r pow_term_exact [OF 1(3)] js_add_exact)
    also have "\<dots> = Num (s + ?blk + (\<Sum>i\<leftarrow>[j + 8..<length a]. ?f i))"
      by (rule 1(1) [OF True _ r 1(3)])
         (simp only: r pow_term_exact [OF 1(3)] js_add_exact)
    also have "s + ?blk + (\<Sum>i\<leftarrow>[j + 8..<length a]. ?f i) = s + (\<Sum>i\<leftarrow>[j..<length a]. ?f i)"
      by (subst (2) sl_block8) (simp only: add.assoc)
    finally show ?thesis .
  next
    case False
    then show ?thesis by (simp add: sum8_stop)
  qed
qed

lemmas sum8_exact = sum8_exact_aux [OF refl]

lemma sum8_NaN: "sum8 rnd t d j NaN = NaN"
proof (induction rnd t d j NaN rule: sum8.induct)
  case (1 rnd t d j)
  show ?case
  proof (cases "j < length t")
    case True
    then show ?thesis using 1 by (subst sum8.simps) simp
  next
    case False
    then show ?thesis by (simp add: sum8_stop)
  qed
qed

lemma sum8_short:
  "j \<le> length d \<Longrightarrow> length d < length t \<Longrightarrow> sum8 rnd t d j acc = NaN"
proof (induction rnd t d j acc rule: sum8.induct)
  case (1 rnd t d j acc)
  have jt: "j < length t" using 1(2,3) by simp
  let ?blk = "js_add rnd (js_add rnd (js_add rnd (js_add rnd (js_add rnd (js_add rnd (js_add rnd
                 (pow_term rnd t d j) (pow_term rnd t d (j + 1))) (pow_term rnd t d (j + 2)))
                 (pow_term rnd t d (j + 3))) (pow_term rnd t d (j + 4))) (pow_term rnd t d (j + 5)))
                 (pow_term rnd t d (j + 6))) (pow_term rnd t d (j + 7))"
  have unf: "sum8 rnd t d j acc = sum8 rnd t d (j + 8) (js_add rnd acc ?blk)"
    by (rule sum8_unfold [OF jt])
  show ?case
  proof (cases "j + 8 \<le> length d")
    case True
    show ?thesis
      unfolding unf by (rule 1(1) [OF jt True 1(3)])
  next
    case False
    then consider "length d = j" | "length d = j + 1" | "length d = j + 2" | "length d = j + 3"
      | "length d = j + 4" | "length d = j + 5" | "length d = j + 6" | "length d = j + 7"
      using 1(2) by linarith
    then have "?blk = NaN"
      using 1(3) by cases (simp_all add: pow_term_cases)
    then show ?thesis
      unfolding unf by (simp add: sum8_NaN)
  qed
qed

lemma sum8_nonneg:
  "length t \<le> length d \<Longrightarrow> nonneg_num acc \<Longrightarrow> nonneg_num (sum8 ieee t d j acc)"
proof (induction ieee t d j acc rule: sum8.induct)
  case (1 t d j acc)
  show ?case
  proof (cases "j < length t")
    case True
    show ?thesis
      unfolding sum8_unfold [OF True]
      by (rule 1(1) [OF True 1(2)])
         (intro nonneg_num_add 1(3) nonneg_num_pow_term [OF 1(2)])
  next
    case False
    then show ?thesis using 1(3) by (simp add: sum8_stop)
  qed
qed

lemma distance8_exact:
  "length a \<le> length b \<Longrightarrow>
     distance8_with exact a b = Num (sqrt (\<Sum>i\<leftarrow>[0..<length a]. (a ! i - b ! i)\<^sup>2))"
  using sum8_exact [of a b 0 0] sum_sq_nonneg [of "\<lambda>i. a ! i - b ! i" "[0..<length a]"]
  by (simp add: distance8_with_def exact_def)

lemma distance8_short: "length d < length t \<Longrightarrow> distance8 t d = NaN"
  by (simp add: distance8_def distance8_with_def sum8_short)

lemma distance8_long: "length t \<le> length d \<Longrightarrow> nonneg_num (distance8 t d)"
  unfolding distance8_def distance8_with_def
  by (intro nonneg_num_sqrt sum8_nonneg) simp_all

lemma distance8_class:
  "distance8 t d = NaN \<or> distance8 t d = PosInfinity \<or> (\<exists>e\<ge>0. distance8 t d = Num e)"
proof (cases "length t \<le> length d")
  case True
  from distance8_long [OF this] show ?thesis by (simp add: nonneg_num_cases)
next
  case False
  then show ?thesis by (simp add: distance8_short)
qed

subsection \<open>Stride 4\<close>

lemma diff_term_cases:
  "diff_term rnd t d k =
     (if k < length t then (if k < length d then rnd (t ! k - d ! k) else NaN) else Num 0)"
  by (simp add: diff_term_def js_index_def)

lemma diff_term_exact:
  "length a \<le> length b \<Longrightarrow>
     diff_term exact a b k = Num (if k < length a then a ! k - b ! k else 0)"
  by (simp add: diff_term_cases exact_def)

lemma diff_term_not_NaN: "length t \<le> length d \<Longrightarrow> diff_term ieee t d k \<noteq> NaN"
  by (simp add: diff_term_cases)

lemma first_diff_eq:
  "j < length t \<Longrightarrow> js_sub rnd (js_index t j) (js_index d j) = diff_term rnd t d j"
  by (simp add: diff_term_def)

lemma sum4_unfold:
  "j < length t \<Longrightarrow>
     sum4 rnd t d j acc = sum4 rnd t d (j + 4)
       (js_add rnd acc
         (js_add rnd (js_add rnd (js_add rnd
            (js_mul rnd (diff_term rnd t d j) (diff_term rnd t d j))
            (js_mul rnd (diff_term rnd t d (j + 1)) (diff_term rnd t d (j + 1))))
            (js_mul rnd (diff_term rnd t d (j + 2)) (diff_term rnd t d (j + 2))))
            (js_mul rnd (diff_term rnd t d (j + 3)) (diff_term rnd t d (j + 3)))))"
  by (subst sum4.simps) (simp only: if_True Let_def first_diff_eq)

lemma sum4_stop: "\<not> j < length t \<Longrightarrow> sum4 rnd t d j acc = acc"
  by (subst sum4.simps) simp

lemma sum4_exact_aux:
  "rnd = exact \<Longrightarrow> length a \<le> length b \<Longrightarrow>
     sum4 rnd a b j (Num s) = Num (s + (\<Sum>i\<leftarrow>[j..<length a]. (a ! i - b ! i)\<^sup>2))"
proof (induction rnd a b j "Num s" arbitrary: s rule: sum4.induct)
  case (1 rnd a b j)
  let ?f = "\<lambda>i. (a ! i - b ! i)\<^sup>2"
  let ?d = "\<lambda>k. if k < length a then a ! k - b ! k else 0"
  note r = 1(2)
  show ?case
  proof (cases "j < length a")
    case True
    let ?blk = "?d j * ?d j + ?d (j + 1) * ?d (j + 1) + ?d (j + 2) * ?d (j + 2)
                + ?d (j + 3) * ?d (j + 3)"
    have "sum4 rnd a b j (Num s) = sum4 rnd a b (j + 4) (Num (s + ?blk))"
      by (subst sum4_unfold [OF True])
         (simp only: r diff_term_exact [OF 1(3)] js_add_exact js_mul_exact)
    also have "\<dots> = Num (s + ?blk + (\<Sum>i\<leftarrow>[j + 4..<length a]. ?f i))"
      by (rule 1(1) [OF True refl refl refl refl _ r 1(3)])
         (simp only: r first_diff_eq [OF True] diff_term_exact [OF 1(3)] js_add_exact js_mul_exact)
    also have "s + ?blk + (\<Sum>i\<leftarrow>[j + 4..<length a]. ?f i) = s + (\<Sum>i\<leftarrow>[j..<length a]. ?f i)"
      using True by (subst (2) sl_block4) (simp add: power2_eq_square)
    finally show ?thesis .
  next
    case False
    then show ?thesis by (simp add: sum4_stop)
  qed
qed

lemmas sum4_exact = sum4_exact_aux [OF refl]

lemma sum4_NaN: "sum4 rnd t d j NaN = NaN"
proof (induction rnd t d j NaN rule: sum4.induct)
  case (1 rnd t d j)
  show ?case
  proof (cases "j < length t")
    case True
    then show ?thesis using 1 by (subst sum4.simps) (simp add: Let_def)
  next
    case False
    then show ?thesis by (simp add: sum4_stop)
  qed
qed

lemma sum4_short:
  "j \<le> length d \<Longrightarrow> length d < length t \<Longrightarrow> sum4 rnd t d j acc = NaN"
proof (induction rnd t d j acc rule: sum4.induct)
  case (1 rnd t d j acc)
  have jt: "j < length t" using 1(2,3) by simp
  let ?blk = "js_add rnd (js_add rnd (js_add rnd
            (js_mul rnd (diff_term rnd t d j) (diff_term rnd t d j))
            (js_mul rnd (diff_term rnd t d (j + 1)) (diff_term rnd t d (j + 1))))
            (js_mul rnd (diff_term rnd t d (j + 2)) (diff_term rnd t d (j + 2))))
            (js_mul rnd (diff_term rnd t d (j + 3)) (diff_term rnd t d (j + 3)))"
  show ?case
  proof (cases "j + 4 \<le> length d")
    case True
    have "sum4 rnd t d (j + 4) (js_add rnd acc ?blk) = NaN"
      using 1(1) [OF jt refl refl refl refl, unfolded first_diff_eq [OF jt], OF True 1(3)] .
    then show ?thesis by (simp only: sum4_unfold [OF jt])
  next
    case False
    then consider "length d = j" | "length d = j + 1" | "length d = j + 2" | "length d = j + 3"
      using 1(2) by linarith
    then have "?blk = NaN"
      using 1(3) by cases (simp_all add: diff_term_cases)
    then show ?thesis
      by (simp add: sum4_unfold [OF jt] sum4_NaN)
  qed
qed

lemma sum4_nonneg:
  "length t \<le> length d \<Longrightarrow> nonneg_num acc \<Longrightarrow> nonneg_num (sum4 ieee t d j acc)"
proof (induction ieee t d j acc rule: sum4.induct)
  case (1 t d j acc)
  show ?case
  proof (cases "j < length t")
    case True
    have "nonneg_num (sum4 ieee t d (j + 4) (js_add ieee acc
         (js_add ieee (js_add ieee (js_add ieee
            (js_mul ieee (diff_term ieee t d j) (diff_term ieee t d j))
            (js_mul ieee (diff_term ieee t d (j + 1)) (diff_term ieee t d (j + 1))))
            (js_mul ieee (diff_term ieee t d (j + 2)) (diff_term ieee t d (j + 2))))
            (js_mul ieee (diff_term ieee t d (j + 3)) (diff_term ieee t d (j + 3))))))"
      by (rule 1(1) [OF True refl refl refl refl, unfolded first_diff_eq [OF True], OF 1(2)])
         (intro nonneg_num_add 1(3) nonneg_num_square diff_term_not_NaN [OF 1(2)])
    then show ?thesis by (simp only: sum4_unfold [OF True])
  next
    case False
    then show ?thesis using 1(3) by (simp add: sum4_stop)
  qed
qed

lemma distance4_exact:
  "length a \<le> length b \<Longrightarrow>
     distance4_with exact a b = Num (sqrt (\<Sum>i\<leftarrow>[0..<length a]. (a ! i - b ! i)\<^sup>2))"
  using sum4_exact [of a b 0 0] sum_sq_nonneg [of "\<lambda>i. a ! i - b ! i" "[0..<length a]"]
  by (simp add: distance4_with_def exact_def)

lemma distance4_short: "length d < length t \<Longrightarrow> distance4 t d = NaN"
  by (simp add: distance4_def distance4_with_def sum4_short)

lemma distance4_long: "length t \<le> length d \<Longrightarrow> nonneg_num (distance4 t d)"
  unfolding distance4_def distance4_with_def
  by (intro nonneg_num_sqrt sum4_nonneg) simp_all

lemma distance4_class:
  "distance4 t d = NaN \<or> distance4 t d = PosInfinity \<or> (\<exists>e\<ge>0. distance4 t d = Num e)"
proof (cases "length t \<le> length d")
  case True
  from distance4_long [OF this] show ?thesis by (simp add: nonneg_num_cases)
next
  case False
  then show ?thesis by (simp add: distance4_short)
qed

section \<open>Facts about the search loops\<close>

subsection \<open>The loop of \<open>findMatchingFace\<close> (utils)\<close>

lemma candidate_distance_Some:
  "candidate_distance f t p = Some e \<longleftrightarrow> (\<exists>d. faceDescriptor p = Some d \<and> f t d = Num e)"
  by (auto simp: candidate_distance_def split: option.splits jsnum.splits)

lemma candidate_distance8_nonneg: "candidate_distance distance8 t p = Some e \<Longrightarrow> 0 \<le> e"
proof -
  assume "candidate_distance distance8 t p = Some e"
  then obtain d where "distance8 t d = Num e" by (auto simp: candidate_distance_Some)
  then show ?thesis using distance8_class [of t d] by simp
qed

lemma scan_batch_step:
  "scan_batch t th (p # ps) st =
     (if \<not> has_descriptor p then scan_batch t th ps st
      else (case candidate_distance distance8 t p of
              None \<Rightarrow> scan_batch t th ps (st\<lparr>compared := compared st + 1\<rparr>)
            | Some e \<Rightarrow>
                if js_lt (Num e) (bestDistance st)
                then (if js_lt (Num e) (early_cut th)
                      then Return \<lparr>match = Some p, distance = Num e\<rparr> (compared st + 1)
                      else scan_batch t th ps
                             (st\<lparr>compared := compared st + 1, bestDistance := Num e, bestMatch := Some p\<rparr>))
                else scan_batch t th ps (st\<lparr>compared := compared st + 1\<rparr>)))"
proof (cases "faceDescriptor p")
  case None
  then show ?thesis by (simp add: has_descriptor_def)
next
  case (Some d)
  show ?thesis
    using distance8_class [of t d] Some
    by (auto simp: has_descriptor_def candidate_distance_def Let_def)
qed

declare scan_batch.simps(2) [simp del]

lemma scan_batch_Continue:
  "above_cut th st \<Longrightarrow> scan_batch t th ps st = Continue st' \<Longrightarrow>
     above_cut th st'
     \<and> compared st' = compared st + length (filter has_descriptor ps)
     \<and> (\<forall>q\<in>set ps. \<forall>e. candidate_distance distance8 t q = Some e \<longrightarrow>
            js_le (bestDistance st') (Num e) \<and> \<not> js_lt (Num e) (early_cut th))
     \<and> js_le (bestDistance st') (bestDistance st)
     \<and> ((bestDistance st' = bestDistance st \<and> bestMatch st' = bestMatch st)
         \<or> (\<exists>p\<in>set ps. \<exists>e. candidate_distance distance8 t p = Some e
               \<and> bestDistance st' = Num e \<and> bestMatch st' = Some p))"
proof (induction ps arbitrary: st)
  case Nil
  then show ?case by (auto simp: above_cut_def split: jsnum.splits)
next
  case (Cons p ps)
  show ?case
  proof (cases "has_descriptor p")
    case False
    then have n: "candidate_distance distance8 t p = None"
      by (simp add: candidate_distance_def has_descriptor_def)
    have b: "scan_batch t th ps st = Continue st'"
      using Cons.prems(2) False by (simp add: scan_batch_step)
    show ?thesis using Cons.IH [OF Cons.prems(1) b] False n by auto
  next
    case hd: True
    show ?thesis
    proof (cases "candidate_distance distance8 t p")
      case None
      let ?s1 = "st\<lparr>compared := compared st + 1\<rparr>"
      have a: "above_cut th ?s1" using Cons.prems(1) by (simp add: above_cut_def)
      have b: "scan_batch t th ps ?s1 = Continue st'"
        using Cons.prems(2) hd None by (simp add: scan_batch_step)
      show ?thesis using Cons.IH [OF a b] hd None by auto
    next
      case (Some e)
      show ?thesis
      proof (cases "js_lt (Num e) (bestDistance st)")
        case True
        then have ne: "\<not> js_lt (Num e) (early_cut th)"
          using Cons.prems(2) hd Some by (auto simp: scan_batch_step)
        let ?s2 = "st\<lparr>compared := compared st + 1, bestDistance := Num e, bestMatch := Some p\<rparr>"
        have a: "above_cut th ?s2" using ne by (simp add: above_cut_def)
        have b: "scan_batch t th ps ?s2 = Continue st'"
          using Cons.prems(2) hd Some True ne by (simp add: scan_batch_step)
        have le: "js_le (bestDistance st') (Num e)" using Cons.IH [OF a b] by simp
        have le2: "js_le (bestDistance st') (bestDistance st)"
          using le True Cons.prems(1)
          by (cases "bestDistance st'"; cases "bestDistance st") (auto simp: above_cut_def)
        show ?thesis using Cons.IH [OF a b] hd Some ne le2 by auto
      next
        case False
        let ?s1 = "st\<lparr>compared := compared st + 1\<rparr>"
        have a: "above_cut th ?s1" using Cons.prems(1) by (simp add: above_cut_def)
        have b: "scan_batch t th ps ?s1 = Continue st'"
          using Cons.prems(2) hd Some False by (simp add: scan_batch_step)
        have le: "js_le (bestDistance st') (bestDistance st)" using Cons.IH [OF a b] by simp
        have le2: "js_le (bestDistance st') (Num e) \<and> \<not> js_lt (Num e) (early_cut th)"
          using le False Cons.prems(1)
          by (cases "bestDistance st'"; cases "bestDistance st"; cases "early_cut th")
             (auto simp: above_cut_def)
        show ?thesis using Cons.IH [OF a b] hd Some le2 by auto
      qed
    qed
  qed
qed


lemma scan_batch_Return:
  "above_cut th st \<Longrightarrow> scan_batch t th ps st = Return r n \<Longrightarrow>
     \<exists>pre p post e. ps = pre @ p # post \<and> candidate_distance distance8 t p = Some e
       \<and> js_lt (Num e) (early_cut th) \<and> r = \<lparr>match = Some p, distance = Num e\<rparr>
       \<and> (\<forall>q\<in>set pre. \<forall>e'. candidate_distance distance8 t q = Some e' \<longrightarrow> \<not> js_lt (Num e') (early_cut th))
       \<and> n = compared st + length (filter has_descriptor pre) + 1"
proof (induction ps arbitrary: st)
  case Nil
  then show ?case by simp
next
  case (Cons p ps)
  let ?cd = "candidate_distance distance8 t"
  have tail: "\<exists>pre p' post e. p # ps = pre @ p' # post \<and> ?cd p' = Some e
       \<and> js_lt (Num e) (early_cut th) \<and> r = \<lparr>match = Some p', distance = Num e\<rparr>
       \<and> (\<forall>q\<in>set pre. \<forall>e'. ?cd q = Some e' \<longrightarrow> \<not> js_lt (Num e') (early_cut th))
       \<and> n = compared st + length (filter has_descriptor pre) + 1"
    if a: "above_cut th s1" and b: "scan_batch t th ps s1 = Return r n"
      and c: "compared s1 = compared st + (if has_descriptor p then 1 else 0)"
      and d: "\<forall>e'. ?cd p = Some e' \<longrightarrow> \<not> js_lt (Num e') (early_cut th)" for s1
  proof -
    from Cons.IH [OF a b] obtain pre p' post e where
      h: "ps = pre @ p' # post" "?cd p' = Some e" "js_lt (Num e) (early_cut th)"
         "r = \<lparr>match = Some p', distance = Num e\<rparr>"
         "\<forall>q\<in>set pre. \<forall>e'. ?cd q = Some e' \<longrightarrow> \<not> js_lt (Num e') (early_cut th)"
         "n = compared s1 + length (filter has_descriptor pre) + 1"
      by blast
    have "p # ps = (p # pre) @ p' # post" using h(1) by simp
    moreover have "\<forall>q\<in>set (p # pre). \<forall>e'. ?cd q = Some e' \<longrightarrow> \<not> js_lt (Num e') (early_cut th)"
      using h(5) d by simp
    moreover have "n = compared st + length (filter has_descriptor (p # pre)) + 1"
      using h(6) c by simp
    ultimately show ?thesis using h(2,3,4) by blast
  qed
  show ?case
  proof (cases "has_descriptor p")
    case False
    then have n: "?cd p = None"
      by (simp add: candidate_distance_def has_descriptor_def)
    have b: "scan_batch t th ps st = Return r n"
      using Cons.prems(2) False by (simp add: scan_batch_step)
    show ?thesis by (rule tail [OF Cons.prems(1) b]) (simp_all add: False n)
  next
    case hd: True
    show ?thesis
    proof (cases "?cd p")
      case None
      let ?s1 = "st\<lparr>compared := compared st + 1\<rparr>"
      have a: "above_cut th ?s1" using Cons.prems(1) by (simp add: above_cut_def)
      have b: "scan_batch t th ps ?s1 = Return r n"
        using Cons.prems(2) hd None by (simp add: scan_batch_step)
      show ?thesis by (rule tail [OF a b]) (simp_all add: hd None)
    next
      case (Some e)
      show ?thesis
      proof (cases "js_lt (Num e) (bestDistance st)")
        case lt: True
        show ?thesis
        proof (cases "js_lt (Num e) (early_cut th)")
          case True
          then have "r = \<lparr>match = Some p, distance = Num e\<rparr>" "n = compared st + 1"
            using Cons.prems(2) hd Some lt by (simp_all add: scan_batch_step)
          then have "p # ps = [] @ p # ps \<and> ?cd p = Some e \<and> js_lt (Num e) (early_cut th)
              \<and> r = \<lparr>match = Some p, distance = Num e\<rparr>
              \<and> (\<forall>q\<in>set []. \<forall>e'. ?cd q = Some e' \<longrightarrow> \<not> js_lt (Num e') (early_cut th))
              \<and> n = compared st + length (filter has_descriptor []) + 1"
            using Some True by simp
          then show ?thesis by blast
        next
          case ne: False
          let ?s2 = "st\<lparr>compared := compared st + 1, bestDistance := Num e, bestMatch := Some p\<rparr>"
          have a: "above_cut th ?s2" using ne by (simp add: above_cut_def)
          have b: "scan_batch t th ps ?s2 = Return r n"
            using Cons.prems(2) hd Some lt ne by (simp add: scan_batch_step)
          show ?thesis by (rule tail [OF a b]) (use ne in \<open>simp_all add: hd Some\<close>)
        qed
      next
        case False
        let ?s1 = "st\<lparr>compared := compared st + 1\<rparr>"
        have a: "above_cut th ?s1" using Cons.prems(1) by (simp add: above_cut_def)
        have b: "scan_batch t th ps ?s1 = Return r n"
          using Cons.prems(2) hd Some False by (simp add: scan_batch_step)
        have ge: "\<not> js_lt (Num e) (early_cut th)"
          using False Cons.prems(1)
          by (cases "bestDistance st"; cases "early_cut th") (auto simp: above_cut_def)
        show ?thesis by (rule tail [OF a b]) (use ge in \<open>simp_all add: hd Some\<close>)
      qed
    qed
  qed
qed

lemma scan_batch_append:
  "scan_batch t th (xs @ ys) st =
     (case scan_batch t th xs st of Return r n \<Rightarrow> Return r n | Continue st' \<Rightarrow> scan_batch t th ys st')"
  by (induction xs arbitrary: st) (simp_all add: scan_batch.simps(2) Let_def split: option.splits)

lemma scan_batches_eq: "scan_batches t th ps i st = scan_batch t th (drop i ps) st"
proof (induction t th ps i st rule: scan_batches.induct)
  case (1 t th ps i st)
  show ?case
  proof (cases "i < length ps")
    case True
    have split: "drop i ps = take BATCH_SIZE (drop i ps) @ drop (i + BATCH_SIZE) ps"
      using append_take_drop_id [of BATCH_SIZE "drop i ps"] by (simp add: add.commute)
    have e: "scan_batch t th (drop i ps) st =
        (case scan_batch t th (take BATCH_SIZE (drop i ps)) st of
           Return r n \<Rightarrow> Return r n
         | Continue st' \<Rightarrow> scan_batch t th (drop (i + BATCH_SIZE) ps) st')"
      using scan_batch_append [of t th "take BATCH_SIZE (drop i ps)" "drop (i + BATCH_SIZE) ps" st,
          folded split] .
    show ?thesis
    proof (cases "scan_batch t th (take BATCH_SIZE (drop i ps)) st")
      case (Continue st')
      have "scan_batches t th ps i st = scan_batches t th ps (i + BATCH_SIZE) st'"
        using True Continue by (subst scan_batches.simps) simp
      also have "\<dots> = scan_batch t th (drop (i + BATCH_SIZE) ps) st'"
        by (rule 1 [OF True Continue])
      finally show ?thesis by (simp add: e Continue)
    next
      case (Return r n)
      have "scan_batches t th ps i st = Return r n"
        using True Return by (subst scan_batches.simps) simp
      then show ?thesis by (simp add: e Return)
    qed
  next
    case False
    then show ?thesis by (subst scan_batches.simps) simp
  qed
qed

lemma above_cut_init: "above_cut th search_init"
  by (simp add: above_cut_def search_init_def)

subsection \<open>The loops without early return\<close>

lemma candidate_distance4_nonneg: "candidate_distance distance4 t p = Some e \<Longrightarrow> 0 \<le> e"
proof -
  assume "candidate_distance distance4 t p = Some e"
  then obtain d where "distance4 t d = Num e" by (auto simp: candidate_distance_Some)
  then show ?thesis using distance4_class [of t d] by simp
qed

lemma direct_loop_step:
  "direct_loop t th (p # ps) st =
     (if \<not> has_descriptor p then direct_loop t th ps st
      else (case candidate_distance distance4 t p of
              None \<Rightarrow> direct_loop t th ps (st\<lparr>compared := compared st + 1\<rparr>)
            | Some e \<Rightarrow>
                if e < th \<and> js_lt (Num e) (bestDistance st)
                then direct_loop t th ps
                       (st\<lparr>compared := compared st + 1, bestDistance := Num e, bestMatch := Some p\<rparr>)
                else direct_loop t th ps (st\<lparr>compared := compared st + 1\<rparr>)))"
proof (cases "faceDescriptor p")
  case None
  then show ?thesis by (simp add: has_descriptor_def)
next
  case (Some d)
  show ?thesis
    using distance4_class [of t d] Some
    by (auto simp: has_descriptor_def candidate_distance_def Let_def)
qed

declare direct_loop.simps(2) [simp del]

lemma direct_loop_inv:
  "inf_or_num st \<Longrightarrow> direct_loop t th ps st = st' \<Longrightarrow>
     inf_or_num st'
     \<and> compared st' = compared st + length (filter has_descriptor ps)
     \<and> (\<forall>q\<in>set ps. \<forall>e. candidate_distance distance4 t q = Some e \<longrightarrow> e < th \<longrightarrow>
            js_le (bestDistance st') (Num e))
     \<and> js_le (bestDistance st') (bestDistance st)
     \<and> ((bestDistance st' = bestDistance st \<and> bestMatch st' = bestMatch st)
         \<or> (\<exists>p\<in>set ps. \<exists>e. candidate_distance distance4 t p = Some e \<and> e < th
               \<and> bestDistance st' = Num e \<and> bestMatch st' = Some p))"
proof (induction ps arbitrary: st)
  case Nil
  then show ?case by (auto simp: inf_or_num_def split: jsnum.splits)
next
  case (Cons p ps)
  let ?cd = "candidate_distance distance4 t"
  show ?case
  proof (cases "has_descriptor p")
    case False
    then have n: "?cd p = None"
      by (simp add: candidate_distance_def has_descriptor_def)
    have b: "direct_loop t th ps st = st'"
      using Cons.prems(2) False by (simp add: direct_loop_step)
    show ?thesis using Cons.IH [OF Cons.prems(1) b] False n by auto
  next
    case hd: True
    let ?s1 = "st\<lparr>compared := compared st + 1\<rparr>"
    have a1: "inf_or_num ?s1" using Cons.prems(1) by (simp add: inf_or_num_def)
    show ?thesis
    proof (cases "?cd p")
      case None
      have b: "direct_loop t th ps ?s1 = st'"
        using Cons.prems(2) hd None by (simp add: direct_loop_step)
      show ?thesis using Cons.IH [OF a1 b] hd None by auto
    next
      case (Some e)
      show ?thesis
      proof (cases "e < th \<and> js_lt (Num e) (bestDistance st)")
        case True
        let ?s2 = "st\<lparr>compared := compared st + 1, bestDistance := Num e, bestMatch := Some p\<rparr>"
        have a: "inf_or_num ?s2" by (simp add: inf_or_num_def)
        have b: "direct_loop t th ps ?s2 = st'"
          using Cons.prems(2) hd Some True by (simp add: direct_loop_step)
        have le: "js_le (bestDistance st') (Num e)" using Cons.IH [OF a b] by simp
        have le2: "js_le (bestDistance st') (bestDistance st)"
          using le True Cons.prems(1)
          by (cases "bestDistance st'"; cases "bestDistance st") (auto simp: inf_or_num_def)
        show ?thesis using Cons.IH [OF a b] hd Some True le2 by auto
      next
        case False
        have b: "direct_loop t th ps ?s1 = st'"
          using Cons.prems(2) hd Some False by (simp add: direct_loop_step)
        have le: "js_le (bestDistance st') (bestDistance st)" using Cons.IH [OF a1 b] by simp
        have le2: "e < th \<longrightarrow> js_le (bestDistance st') (Num e)"
          using le False Cons.prems(1)
          by (cases "bestDistance st'"; cases "bestDistance st") (auto simp: inf_or_num_def)
        show ?thesis using Cons.IH [OF a1 b] hd Some le2 by auto
      qed
    qed
  qed
qed

lemma part3_loop_step:
  "part3_loop t (p # ps) st =
     (if \<not> has_descriptor p then part3_loop t ps st
      else (case candidate_distance distance8 t p of
              None \<Rightarrow> part3_loop t ps (st\<lparr>compared := compared st + 1\<rparr>)
            | Some e \<Rightarrow>
                if js_lt (Num e) (bestDistance st)
                then part3_loop t ps
                       (st\<lparr>compared := compared st + 1, bestDistance := Num e, bestMatch := Some p\<rparr>)
                else part3_loop t ps (st\<lparr>compared := compared st + 1\<rparr>)))"
proof (cases "faceDescriptor p")
  case None
  then show ?thesis by (simp add: has_descriptor_def)
next
  case (Some d)
  show ?thesis
    using distance8_class [of t d] Some
    by (auto simp: has_descriptor_def candidate_distance_def Let_def)
qed

declare part3_loop.simps(2) [simp del]

lemma part3_loop_inv:
  "inf_or_num st \<Longrightarrow> part3_loop t ps st = st' \<Longrightarrow>
     inf_or_num st'
     \<and> compared st' = compared st + length (filter has_descriptor ps)
     \<and> (\<forall>q\<in>set ps. \<forall>e. candidate_distance distance8 t q = Some e \<longrightarrow>
            js_le (bestDistance st') (Num e))
     \<and> js_le (bestDistance st') (bestDistance st)
     \<and> ((bestDistance st' = bestDistance st \<and> bestMatch st' = bestMatch st)
         \<or> (\<exists>p\<in>set ps. \<exists>e. candidate_distance distance8 t p = Some e
               \<and> bestDistance st' = Num e \<and> bestMatch st' = Some p))"
proof (induction ps arbitrary: st)
  case Nil
  then show ?case by (auto simp: inf_or_num_def split: jsnum.splits)
next
  case (Cons p ps)
  let ?cd = "candidate_distance distance8 t"
  show ?case
  proof (cases "has_descriptor p")
    case False
    then have n: "?cd p = None"
      by (simp add: candidate_distance_def has_descriptor_def)
    have b: "part3_loop t ps st = st'"
      using Cons.prems(2) False by (simp add: part3_loop_step)
    show ?thesis using Cons.IH [OF Cons.prems(1) b] False n by auto
  next
    case hd: True
    let ?s1 = "st\<lparr>compared := compared st + 1\<rparr>"
    have a1: "inf_or_num ?s1" using Cons.prems(1) by (simp add: inf_or_num_def)
    show ?thesis
    proof (cases "?cd p")
      case None
      have b: "part3_loop t ps ?s1 = st'"
        using Cons.prems(2) hd None by (simp add: part3_loop_step)
      show ?thesis using Cons.IH [OF a1 b] hd None by auto
    next
      case (Some e)
      show ?thesis
      proof (cases "js_lt (Num e) (bestDistance st)")
        case True
        let ?s2 = "st\<lparr>compared := compared st + 1, bestDistance := Num e, bestMatch := Some p\<rparr>"
        have a: "inf_or_num ?s2" by (simp add: inf_or_num_def)
        have b: "part3_loop t ps ?s2 = st'"
          using Cons.prems(2) hd Some True by (simp add: part3_loop_step)
        have le: "js_le (bestDistance st') (Num e)" using Cons.IH [OF a b] by simp
        have le2: "js_le (bestDistance st') (bestDistance st)"
          using le True Cons.prems(1)
          by (cases "bestDistance st'"; cases "bestDistance st") (auto simp: inf_or_num_def)
        show ?thesis using Cons.IH [OF a b] hd Some True le2 by auto
      next
        case False
        have b: "part3_loop t ps ?s1 = st'"
          using Cons.prems(2) hd Some False by (simp add: part3_loop_step)
        have le: "js_le (bestDistance st') (bestDistance st)" using Cons.IH [OF a1 b] by simp
        have le2: "js_le (bestDistance st') (Num e)"
          using le False Cons.prems(1)
          by (cases "bestDistance st'"; cases "bestDistance st") (auto simp: inf_or_num_def)
        show ?thesis using Cons.IH [OF a1 b] hd Some le2 by auto
      qed
    qed
  qed
qed

subsection \<open>The results of the three searches\<close>

lemma findMatchingFace_counted_eq:
  "findMatchingFace_counted (Some t) (Some ps) th =
     (case scan_batch t th ps search_init of
        Return r n \<Rightarrow> (Some r, n)
      | Continue st \<Rightarrow>
          (if js_le (bestDistance st) (Num th)
           then Some \<lparr>match = bestMatch st, distance = bestDistance st\<rparr> else None,
           compared st))"
  by (cases ps) (simp_all add: findMatchingFace_counted_def scan_batches_eq search_init_def)

lemma utils_early:
  assumes "scan_batch t th ps search_init = Return m k"
  shows "findMatchingFace_counted (Some t) (Some ps) th = (Some m, k)"
    and "\<exists>pre p post e. ps = pre @ p # post \<and> candidate_distance distance8 t p = Some e
       \<and> js_lt (Num e) (early_cut th) \<and> 0 \<le> e \<and> m = \<lparr>match = Some p, distance = Num e\<rparr>
       \<and> (\<forall>q\<in>set pre. \<forall>e'. candidate_distance distance8 t q = Some e' \<longrightarrow> \<not> js_lt (Num e') (early_cut th))
       \<and> k = length (filter has_descriptor pre) + 1"
proof -
  show "findMatchingFace_counted (Some t) (Some ps) th = (Some m, k)"
    using assms by (simp add: findMatchingFace_counted_eq)
  from scan_batch_Return [OF above_cut_init assms] obtain pre p post e where
    h: "ps = pre @ p # post" "candidate_distance distance8 t p = Some e" "js_lt (Num e) (early_cut th)"
       "m = \<lparr>match = Some p, distance = Num e\<rparr>"
       "\<forall>q\<in>set pre. \<forall>e'. candidate_distance distance8 t q = Some e' \<longrightarrow> \<not> js_lt (Num e') (early_cut th)"
       "k = compared search_init + length (filter has_descriptor pre) + 1"
    by blast
  have nn: "0 \<le> e" using h(2) by (rule candidate_distance8_nonneg)
  have "k = length (filter has_descriptor pre) + 1"
    using h(6) by (simp add: search_init_def)
  then show "\<exists>pre p post e. ps = pre @ p # post \<and> candidate_distance distance8 t p = Some e
       \<and> js_lt (Num e) (early_cut th) \<and> 0 \<le> e \<and> m = \<lparr>match = Some p, distance = Num e\<rparr>
       \<and> (\<forall>q\<in>set pre. \<forall>e'. candidate_distance distance8 t q = Some e' \<longrightarrow> \<not> js_lt (Num e') (early_cut th))
       \<and> k = length (filter has_descriptor pre) + 1"
    using h(1,2,3,4,5) nn by blast
qed

lemma utils_full:
  assumes "scan_batch t th ps search_init = Continue st"
  shows "findMatchingFace_counted (Some t) (Some ps) th =
           (if js_le (bestDistance st) (Num th)
            then Some \<lparr>match = bestMatch st, distance = bestDistance st\<rparr> else None,
            length (filter has_descriptor ps))"
    and "\<forall>q\<in>set ps. \<forall>e. candidate_distance distance8 t q = Some e \<longrightarrow>
            js_le (bestDistance st) (Num e) \<and> \<not> js_lt (Num e) (early_cut th)"
    and "(bestDistance st = PosInfinity \<and> bestMatch st = None)
         \<or> (\<exists>p\<in>set ps. \<exists>e. candidate_distance distance8 t p = Some e
               \<and> bestDistance st = Num e \<and> bestMatch st = Some p)"
proof -
  note inv = scan_batch_Continue [OF above_cut_init assms]
  show "findMatchingFace_counted (Some t) (Some ps) th =
           (if js_le (bestDistance st) (Num th)
            then Some \<lparr>match = bestMatch st, distance = bestDistance st\<rparr> else None,
            length (filter has_descriptor ps))"
    using assms inv by (simp add: findMatchingFace_counted_eq search_init_def)
  show "\<forall>q\<in>set ps. \<forall>e. candidate_distance distance8 t q = Some e \<longrightarrow>
            js_le (bestDistance st) (Num e) \<and> \<not> js_lt (Num e) (early_cut th)"
    using inv by blast
  show "(bestDistance st = PosInfinity \<and> bestMatch st = None)
         \<or> (\<exists>p\<in>set ps. \<exists>e. candidate_distance distance8 t p = Some e
               \<and> bestDistance st = Num e \<and> bestMatch st = Some p)"
    using inv by (simp add: search_init_def)
qed

lemma direct_result:
  obtains st :: search where "findMatchingFaceDirectly_counted t ps th =
        (case bestMatch st of None \<Rightarrow> None
         | Some p \<Rightarrow> Some \<lparr>match = bestMatch st, distance = bestDistance st\<rparr>,
         length (filter has_descriptor ps))"
    and "\<forall>q\<in>set ps. \<forall>e. candidate_distance distance4 t q = Some e \<longrightarrow> e < th \<longrightarrow>
            js_le (bestDistance st) (Num e)"
    and "(bestDistance st = PosInfinity \<and> bestMatch st = None)
         \<or> (\<exists>p\<in>set ps. \<exists>e. candidate_distance distance4 t p = Some e \<and> e < th
               \<and> bestDistance st = Num e \<and> bestMatch st = Some p)"
proof -
  define st where "st = direct_loop t th ps search_init"
  have i: "inf_or_num search_init" by (simp add: inf_or_num_def search_init_def)
  note inv = direct_loop_inv [OF i st_def [symmetric]]
  have c: "compared st = length (filter has_descriptor ps)"
    using inv by (simp add: search_init_def)
  show ?thesis
  proof (rule that [of st])
    show "findMatchingFaceDirectly_counted t ps th =
        (case bestMatch st of None \<Rightarrow> None
         | Some p \<Rightarrow> Some \<lparr>match = bestMatch st, distance = bestDistance st\<rparr>,
         length (filter has_descriptor ps))"
      by (simp add: findMatchingFaceDirectly_counted_def st_def [symmetric] c Let_def)
    show "\<forall>q\<in>set ps. \<forall>e. candidate_distance distance4 t q = Some e \<longrightarrow> e < th \<longrightarrow>
            js_le (bestDistance st) (Num e)"
      using inv by blast
    show "(bestDistance st = PosInfinity \<and> bestMatch st = None)
         \<or> (\<exists>p\<in>set ps. \<exists>e. candidate_distance distance4 t p = Some e \<and> e < th
               \<and> bestDistance st = Num e \<and> bestMatch st = Some p)"
      using inv by (simp add: search_init_def)
  qed
qed

lemma part3_result:
  obtains st :: search where "findMatchingFace_part3_counted (Some t) (Some ps) th =
        (if js_lt (bestDistance st) (Num th)
         then Some \<lparr>match = bestMatch st, distance = bestDistance st\<rparr> else None,
         length (filter has_descriptor ps))"
    and "\<forall>q\<in>set ps. \<forall>e. candidate_distance distance8 t q = Some e \<longrightarrow>
            js_le (bestDistance st) (Num e)"
    and "(bestDistance st = PosInfinity \<and> bestMatch st = None)
         \<or> (\<exists>p\<in>set ps. \<exists>e. candidate_distance distance8 t p = Some e
               \<and> bestDistance st = Num e \<and> bestMatch st = Some p)"
proof -
  define st where "st = part3_loop t ps search_init"
  have i: "inf_or_num search_init" by (simp add: inf_or_num_def search_init_def)
  note inv = part3_loop_inv [OF i st_def [symmetric]]
  have c: "compared st = length (filter has_descriptor ps)"
    using inv by (simp add: search_init_def)
  show ?thesis
  proof (rule that [of st])
    show "findMatchingFace_part3_counted (Some t) (Some ps) th =
        (if js_lt (bestDistance st) (Num th)
         then Some \<lparr>match = bestMatch st, distance = bestDistance st\<rparr> else None,
         length (filter has_descriptor ps))"
    proof (cases "ps = []")
      case True
      then show ?thesis
        by (simp add: findMatchingFace_part3_counted_def st_def search_init_def)
    next
      case False
      then show ?thesis
        by (simp add: findMatchingFace_part3_counted_def st_def [symmetric] c Let_def)
    qed
    show "\<forall>q\<in>set ps. \<forall>e. candidate_distance distance8 t q = Some e \<longrightarrow>
            js_le (bestDistance st) (Num e)"
      using inv by blast
    show "(bestDistance st = PosInfinity \<and> bestMatch st = None)
         \<or> (\<exists>p\<in>set ps. \<exists>e. candidate_distance distance8 t p = Some e
               \<and> bestDistance st = Num e \<and> bestMatch st = Some p)"
      using inv by (simp add: search_init_def)
  qed
qed

section \<open>Exactness of the nearest-match search\<close>

lemma sqrt_sixteenth: "sqrt (1 / 16) = 1 / 4" "sqrt (1 / 4) = 1 / 2"
  by (rule real_sqrt_unique; simp add: power2_eq_square)+

lemmas eval_distance = distance8_def distance8_with_def distance4_def distance4_with_def
  sum8_unfold sum8_stop sum4_unfold sum4_stop pow_term_cases diff_term_cases
  ieee_quarter ieee_half ieee_sixteenth sqrt_sixteenth power2_eq_square

lemma distance8_examples:
  "distance8 [0] [1 / 4] = Num (1 / 4)" "distance8 [0] [0] = Num 0"
  "distance8 [0] [1 / 2] = Num (1 / 2)" "distance8 [0] [0, 5] = Num 0" "distance8 [0] [] = NaN"
  by (simp_all add: eval_distance)

lemma distance4_examples:
  "distance4 [0] [1 / 4] = Num (1 / 4)" "distance4 [0] [0] = Num 0"
  "distance4 [0] [1 / 2] = Num (1 / 2)" "distance4 [0] [0, 5] = Num 0" "distance4 [0] [] = NaN"
  by (simp_all add: eval_distance)

lemmas eval_search = findMatchingFace_counted_eq scan_batch_step direct_loop_step part3_loop_step
  findMatchingFaceDirectly_counted_def findMatchingFace_part3_counted_def
  findMatchingFace_def findMatchingFaceDirectly_def findMatchingFace_part3_def
  candidate_distance_def has_descriptor_def search_init_def distance8_examples distance4_examples early_cut_half Let_def
  profile_A_def profile_B_def profile_C_def profile_missing_def profile_empty_def profile_long_def

text \<open>
  Claim C1, as amended. Distances are the computed ones, doubles, and they are compared as
  such. \<open>findMatchingFaceDirectly\<close> (server) computes a distance for every candidate that
  has a descriptor, and a match it returns has the minimum distance over all candidates
  whose distance is a finite number. \<open>findMatchingFace\<close> (utils) returns a candidate \<open>p\<close>
  of the list with its own distance \<open>e\<close>: either \<open>e\<close> is below the computed product
  \<open>threshold * 0.7\<close>, \<open>p\<close> is the first candidate that close and the search stopped at
  \<open>p\<close>; or no candidate is that close, every candidate with a descriptor was compared
  and \<open>e\<close> is the minimum.
\<close>

theorem nearest_match_search:
  "(findMatchingFaceDirectly_counted t ps th = (r, n) \<longrightarrow>
      n = length (filter has_descriptor ps) \<and>
      (\<forall>m. r = Some m \<longrightarrow>
         (\<exists>p\<in>set ps. \<exists>e. match m = Some p \<and> distance m = Num e
            \<and> candidate_distance distance4 t p = Some e
            \<and> (\<forall>q\<in>set ps. \<forall>e'. candidate_distance distance4 t q = Some e' \<longrightarrow> e \<le> e'))))
   \<and> (findMatchingFace_counted (Some t) (Some ps) th = (Some m, k) \<longrightarrow>
        (\<exists>pre p post e. ps = pre @ p # post \<and> match m = Some p \<and> distance m = Num e
           \<and> candidate_distance distance8 t p = Some e
           \<and> (if js_lt (Num e) (early_cut th)
               then k = length (filter has_descriptor pre) + 1
                    \<and> (\<forall>q\<in>set pre. \<forall>e'. candidate_distance distance8 t q = Some e' \<longrightarrow>
                          \<not> js_lt (Num e') (early_cut th))
               else k = length (filter has_descriptor ps)
                    \<and> (\<forall>q\<in>set ps. \<forall>e'. candidate_distance distance8 t q = Some e' \<longrightarrow> e \<le> e'))))"
proof (intro conjI impI)
  assume a: "findMatchingFaceDirectly_counted t ps th = (r, n)"
  obtain st :: search where
    h: "findMatchingFaceDirectly_counted t ps th =
        (case bestMatch st of None \<Rightarrow> None
         | Some p \<Rightarrow> Some \<lparr>match = bestMatch st, distance = bestDistance st\<rparr>,
         length (filter has_descriptor ps))"
       "\<forall>q\<in>set ps. \<forall>e. candidate_distance distance4 t q = Some e \<longrightarrow> e < th \<longrightarrow>
            js_le (bestDistance st) (Num e)"
       "(bestDistance st = PosInfinity \<and> bestMatch st = None)
         \<or> (\<exists>p\<in>set ps. \<exists>e. candidate_distance distance4 t p = Some e \<and> e < th
               \<and> bestDistance st = Num e \<and> bestMatch st = Some p)"
    by (rule direct_result)
  show "n = length (filter has_descriptor ps)" using a h(1) by simp
  show "\<forall>m. r = Some m \<longrightarrow>
         (\<exists>p\<in>set ps. \<exists>e. match m = Some p \<and> distance m = Num e
            \<and> candidate_distance distance4 t p = Some e
            \<and> (\<forall>q\<in>set ps. \<forall>e'. candidate_distance distance4 t q = Some e' \<longrightarrow> e \<le> e'))"
  proof (intro allI impI)
    fix m assume "r = Some m"
    then have bm: "bestMatch st \<noteq> None" and m: "m = \<lparr>match = bestMatch st, distance = bestDistance st\<rparr>"
      using a h(1) by (auto split: option.splits)
    from bm h(3) obtain p e where
      p: "p \<in> set ps" "candidate_distance distance4 t p = Some e" "e < th"
         "bestDistance st = Num e" "bestMatch st = Some p"
      by auto
    have "e \<le> e'" if "q \<in> set ps" "candidate_distance distance4 t q = Some e'" for q e'
    proof (cases "e' < th")
      case True
      then show ?thesis using h(2) that p(4) by auto
    next
      case False
      then show ?thesis using p(3) by simp
    qed
    then show "\<exists>p\<in>set ps. \<exists>e. match m = Some p \<and> distance m = Num e
            \<and> candidate_distance distance4 t p = Some e
            \<and> (\<forall>q\<in>set ps. \<forall>e'. candidate_distance distance4 t q = Some e' \<longrightarrow> e \<le> e')"
      using p m by auto
  qed
next
  assume a: "findMatchingFace_counted (Some t) (Some ps) th = (Some m, k)"
  let ?cd = "candidate_distance distance8 t"
  show "\<exists>pre p post e. ps = pre @ p # post \<and> match m = Some p \<and> distance m = Num e
           \<and> ?cd p = Some e
           \<and> (if js_lt (Num e) (early_cut th)
               then k = length (filter has_descriptor pre) + 1
                    \<and> (\<forall>q\<in>set pre. \<forall>e'. ?cd q = Some e' \<longrightarrow> \<not> js_lt (Num e') (early_cut th))
               else k = length (filter has_descriptor ps)
                    \<and> (\<forall>q\<in>set ps. \<forall>e'. ?cd q = Some e' \<longrightarrow> e \<le> e'))"
  proof (cases "scan_batch t th ps search_init")
    case (Return m' k')
    have mk: "m' = m" "k' = k" using utils_early(1) [OF Return] a by simp_all
    from utils_early(2) [OF Return] obtain pre p post e where
      h: "ps = pre @ p # post" "?cd p = Some e" "js_lt (Num e) (early_cut th)"
         "m' = \<lparr>match = Some p, distance = Num e\<rparr>"
         "\<forall>q\<in>set pre. \<forall>e'. ?cd q = Some e' \<longrightarrow> \<not> js_lt (Num e') (early_cut th)"
         "k' = length (filter has_descriptor pre) + 1"
      by blast
    have "ps = pre @ p # post \<and> match m = Some p \<and> distance m = Num e \<and> ?cd p = Some e
           \<and> (if js_lt (Num e) (early_cut th)
               then k = length (filter has_descriptor pre) + 1
                    \<and> (\<forall>q\<in>set pre. \<forall>e'. ?cd q = Some e' \<longrightarrow> \<not> js_lt (Num e') (early_cut th))
               else k = length (filter has_descriptor ps)
                    \<and> (\<forall>q\<in>set ps. \<forall>e'. ?cd q = Some e' \<longrightarrow> e \<le> e'))"
      using h mk by simp
    then show ?thesis by blast
  next
    case (Continue st)
    note u = utils_full [OF Continue]
    have le: "js_le (bestDistance st) (Num th)"
      and m: "m = \<lparr>match = bestMatch st, distance = bestDistance st\<rparr>"
      and k: "k = length (filter has_descriptor ps)"
      using u(1) a by (auto split: if_splits)
    from le u(3) obtain p e where
      p: "p \<in> set ps" "?cd p = Some e" "bestDistance st = Num e" "bestMatch st = Some p"
      by auto
    obtain pre post where sp: "ps = pre @ p # post"
      using p(1) by (auto dest: split_list)
    have ge: "\<not> js_lt (Num e) (early_cut th)" using u(2) p(1,2) by fastforce
    have mn: "\<forall>q\<in>set ps. \<forall>e'. ?cd q = Some e' \<longrightarrow> e \<le> e'"
      using u(2) p(3) by fastforce
    have "ps = pre @ p # post \<and> match m = Some p \<and> distance m = Num e \<and> ?cd p = Some e
           \<and> (if js_lt (Num e) (early_cut th)
               then k = length (filter has_descriptor pre) + 1
                    \<and> (\<forall>q\<in>set pre. \<forall>e'. ?cd q = Some e' \<longrightarrow> \<not> js_lt (Num e') (early_cut th))
               else k = length (filter has_descriptor ps)
                    \<and> (\<forall>q\<in>set ps. \<forall>e'. ?cd q = Some e' \<longrightarrow> e \<le> e'))"
      using sp m p k ge mn by simp
    then show ?thesis by blast
  qed
qed


lemma ex1_utils:
  "findMatchingFace_counted (Some [0]) (Some [profile_A, profile_B]) (1 / 2)
   = (Some \<lparr>match = Some profile_A, distance = Num (1 / 4)\<rparr>, 1)"
  by (simp add: eval_search)

lemma ex1_direct:
  "findMatchingFaceDirectly_counted [0] [profile_A, profile_B] (1 / 2)
   = (Some \<lparr>match = Some profile_B, distance = Num 0\<rparr>, 2)"
  by (simp add: eval_search)

theorem nearest_match_search_witness:
  "findMatchingFaceDirectly_counted [0] [profile_A, profile_B] (1 / 2)
     = (Some \<lparr>match = Some profile_B, distance = Num 0\<rparr>, 2)
   \<and> (\<exists>p\<in>set [profile_A, profile_B]. \<exists>e.
         match \<lparr>match = Some profile_B, distance = Num 0\<rparr> = Some p
         \<and> distance \<lparr>match = Some profile_B, distance = Num 0\<rparr> = Num e
         \<and> candidate_distance distance4 [0] p = Some e
         \<and> (\<forall>q\<in>set [profile_A, profile_B]. \<forall>e'.
               candidate_distance distance4 [0] q = Some e' \<longrightarrow> e \<le> e'))
   \<and> findMatchingFace_counted (Some [0]) (Some [profile_A, profile_B]) (1 / 2)
     = (Some \<lparr>match = Some profile_A, distance = Num (1 / 4)\<rparr>, 1)
   \<and> (\<exists>pre p post e. [profile_A, profile_B] = pre @ p # post
         \<and> match \<lparr>match = Some profile_A, distance = Num (1 / 4)\<rparr> = Some p
         \<and> distance \<lparr>match = Some profile_A, distance = Num (1 / 4)\<rparr> = Num e
         \<and> candidate_distance distance8 [0] p = Some e
         \<and> js_lt (Num e) (early_cut (1 / 2)) \<and> 1 = length (filter has_descriptor pre) + 1)"
proof -
  note w = nearest_match_search [of "[0]" "[profile_A, profile_B]" "1 / 2"
      "Some \<lparr>match = Some profile_B, distance = Num 0\<rparr>" 2
      "\<lparr>match = Some profile_A, distance = Num (1 / 4)\<rparr>" 1]
  from w ex1_utils obtain pre p post e where
    h: "[profile_A, profile_B] = pre @ p # post"
       "match \<lparr>match = Some profile_A, distance = Num (1 / 4)\<rparr> = Some p"
       "distance \<lparr>match = Some profile_A, distance = Num (1 / 4)\<rparr> = Num e"
       "candidate_distance distance8 [0] p = Some e"
       "if js_lt (Num e) (early_cut (1 / 2))
        then 1 = length (filter has_descriptor pre) + 1
             \<and> (\<forall>q\<in>set pre. \<forall>e'. candidate_distance distance8 [0] q = Some e' \<longrightarrow>
                   \<not> js_lt (Num e') (early_cut (1 / 2)))
        else 1 = length (filter has_descriptor [profile_A, profile_B])
             \<and> (\<forall>q\<in>set [profile_A, profile_B]. \<forall>e'.
                   candidate_distance distance8 [0] q = Some e' \<longrightarrow> e \<le> e')"
    by blast
  have e: "e = 1 / 4" using h(3) by simp
  have "js_lt (Num e) (early_cut (1 / 2)) \<and> 1 = length (filter has_descriptor pre) + 1"
    using h(5) unfolding e by (simp add: early_cut_half split: if_splits)
  with h(1-4) have
    "\<exists>pre p post e. [profile_A, profile_B] = pre @ p # post
         \<and> match \<lparr>match = Some profile_A, distance = Num (1 / 4)\<rparr> = Some p
         \<and> distance \<lparr>match = Some profile_A, distance = Num (1 / 4)\<rparr> = Num e
         \<and> candidate_distance distance8 [0] p = Some e
         \<and> js_lt (Num e) (early_cut (1 / 2)) \<and> 1 = length (filter has_descriptor pre) + 1"
    by blast
  moreover from w ex1_direct have
    "\<exists>p\<in>set [profile_A, profile_B]. \<exists>e.
         match \<lparr>match = Some profile_B, distance = Num 0\<rparr> = Some p
         \<and> distance \<lparr>match = Some profile_B, distance = Num 0\<rparr> = Num e
         \<and> candidate_distance distance4 [0] p = Some e
         \<and> (\<forall>q\<in>set [profile_A, profile_B]. \<forall>e'.
               candidate_distance distance4 [0] q = Some e' \<longrightarrow> e \<le> e')"
    by blast
  ultimately show ?thesis using ex1_utils ex1_direct by blast
qed

text \<open>
  Claim C1 as stated fails on \<open>findMatchingFace\<close> (utils): with the query \<open>[0]\<close>, the
  candidates \<open>A = [0.25]\<close> and \<open>B = [0]\<close> and the threshold \<open>0.5\<close>, the search returns
  \<open>A\<close> at distance \<open>0.25\<close> after one comparison, because \<open>0.25 < 0.5 * 0.7\<close>;
  candidate \<open>B\<close>, at distance \<open>0\<close>, is never compared.
\<close>

theorem early_return_counterexample:
  "findMatchingFace_counted (Some [0]) (Some [profile_A, profile_B]) (1 / 2)
     = (Some \<lparr>match = Some profile_A, distance = Num (1 / 4)\<rparr>, 1)
   \<and> candidate_distance distance8 [0] profile_A = Some (1 / 4)
   \<and> candidate_distance distance8 [0] profile_B = Some 0
   \<and> length (filter has_descriptor [profile_A, profile_B]) = 2"
  by (simp add: eval_search)

section \<open>The threshold decision\<close>

lemma utils_iff:
  assumes dbl: "is_double th"
  shows "(findMatchingFace (Some t) (Some ps) th \<noteq> None)
     = (\<exists>q\<in>set ps. \<exists>e. candidate_distance distance8 t q = Some e \<and> e \<le> th)"
proof (cases "scan_batch t th ps search_init")
  case (Return m k)
  from utils_early(2) [OF Return] obtain pre p post e where
    h: "ps = pre @ p # post" "candidate_distance distance8 t p = Some e" "0 \<le> e"
       "js_lt (Num e) (early_cut th)"
    by blast
  have "e \<le> th" using dbl h(3,4) by (rule below_cut_le)
  with h(1,2) have "\<exists>q\<in>set ps. \<exists>e. candidate_distance distance8 t q = Some e \<and> e \<le> th"
    by auto
  then show ?thesis using utils_early(1) [OF Return] by (simp add: findMatchingFace_def)
next
  case (Continue st)
  note u = utils_full [OF Continue]
  have r: "(findMatchingFace (Some t) (Some ps) th \<noteq> None) = js_le (bestDistance st) (Num th)"
    using u(1) by (simp add: findMatchingFace_def)
  show ?thesis
  proof
    assume "findMatchingFace (Some t) (Some ps) th \<noteq> None"
    then have le: "js_le (bestDistance st) (Num th)" using r by simp
    with u(3) obtain p e where "p \<in> set ps" "candidate_distance distance8 t p = Some e"
      "bestDistance st = Num e" by auto
    then show "\<exists>q\<in>set ps. \<exists>e. candidate_distance distance8 t q = Some e \<and> e \<le> th"
      using le by auto
  next
    assume "\<exists>q\<in>set ps. \<exists>e. candidate_distance distance8 t q = Some e \<and> e \<le> th"
    then obtain q e where q: "q \<in> set ps" "candidate_distance distance8 t q = Some e" "e \<le> th"
      by blast
    then have "js_le (bestDistance st) (Num e)" using u(2) by blast
    then have "js_le (bestDistance st) (Num th)"
      using q(3) by (cases "bestDistance st") auto
    then show "findMatchingFace (Some t) (Some ps) th \<noteq> None" using r by simp
  qed
qed

lemma utils_carried:
  assumes dbl: "is_double th" and "findMatchingFace (Some t) (Some ps) th = Some m"
  shows "\<exists>p\<in>set ps. \<exists>e. match m = Some p \<and> distance m = Num e
           \<and> candidate_distance distance8 t p = Some e \<and> e \<le> th
           \<and> ((\<forall>q\<in>set ps. \<forall>e'. candidate_distance distance8 t q = Some e' \<longrightarrow> \<not> js_lt (Num e') (early_cut th))
                \<longrightarrow> (\<forall>q\<in>set ps. \<forall>e'. candidate_distance distance8 t q = Some e' \<longrightarrow> e \<le> e'))"
proof (cases "scan_batch t th ps search_init")
  case (Return m' k)
  have mm: "m' = m" using utils_early(1) [OF Return] assms by (simp add: findMatchingFace_def)
  from utils_early(2) [OF Return] obtain pre p post e where
    h0: "ps = pre @ p # post" "candidate_distance distance8 t p = Some e" "0 \<le> e"
       "js_lt (Num e) (early_cut th)" "m' = \<lparr>match = Some p, distance = Num e\<rparr>"
    by blast
  have "e \<le> th" using dbl h0(3,4) by (rule below_cut_le)
  note h = h0(1,2) this h0(4,5)
  have "p \<in> set ps" using h(1) by simp
  moreover have "\<not> (\<forall>q\<in>set ps. \<forall>e'. candidate_distance distance8 t q = Some e' \<longrightarrow> \<not> js_lt (Num e') (early_cut th))"
    using \<open>p \<in> set ps\<close> h(2,4) by fastforce
  ultimately show ?thesis using h(2,3,5) mm by auto
next
  case (Continue st)
  note u = utils_full [OF Continue]
  have le: "js_le (bestDistance st) (Num th)"
    and m: "m = \<lparr>match = bestMatch st, distance = bestDistance st\<rparr>"
    using u(1) assms by (auto simp: findMatchingFace_def split: if_splits)
  from le u(3) obtain p e where
    p: "p \<in> set ps" "candidate_distance distance8 t p = Some e" "bestDistance st = Num e"
       "bestMatch st = Some p"
    by auto
  have mn: "\<forall>q\<in>set ps. \<forall>e'. candidate_distance distance8 t q = Some e' \<longrightarrow> e \<le> e'"
    using u(2) p(3) by fastforce
  show ?thesis using p m mn le by auto
qed

lemma direct_iff_carried:
  "(findMatchingFaceDirectly t ps th \<noteq> None)
     = (\<exists>q\<in>set ps. \<exists>e. candidate_distance distance4 t q = Some e \<and> e < th)"
  "findMatchingFaceDirectly t ps th = Some m \<Longrightarrow>
     \<exists>p\<in>set ps. \<exists>e. match m = Some p \<and> distance m = Num e
        \<and> candidate_distance distance4 t p = Some e \<and> e < th
        \<and> (\<forall>q\<in>set ps. \<forall>e'. candidate_distance distance4 t q = Some e' \<longrightarrow> e \<le> e')"
proof -
  let ?cd = "candidate_distance distance4 t"
  obtain st :: search where
    h: "findMatchingFaceDirectly_counted t ps th =
        (case bestMatch st of None \<Rightarrow> None
         | Some p \<Rightarrow> Some \<lparr>match = bestMatch st, distance = bestDistance st\<rparr>,
         length (filter has_descriptor ps))"
       "\<forall>q\<in>set ps. \<forall>e. ?cd q = Some e \<longrightarrow> e < th \<longrightarrow> js_le (bestDistance st) (Num e)"
       "(bestDistance st = PosInfinity \<and> bestMatch st = None)
         \<or> (\<exists>p\<in>set ps. \<exists>e. ?cd p = Some e \<and> e < th
               \<and> bestDistance st = Num e \<and> bestMatch st = Some p)"
    by (rule direct_result)
  have r: "findMatchingFaceDirectly t ps th =
      (case bestMatch st of None \<Rightarrow> None
       | Some p \<Rightarrow> Some \<lparr>match = bestMatch st, distance = bestDistance st\<rparr>)"
    using h(1) by (simp add: findMatchingFaceDirectly_def)
  show "(findMatchingFaceDirectly t ps th \<noteq> None) = (\<exists>q\<in>set ps. \<exists>e. ?cd q = Some e \<and> e < th)"
  proof
    assume "findMatchingFaceDirectly t ps th \<noteq> None"
    then have "bestMatch st \<noteq> None" using r by (auto split: option.splits)
    then show "\<exists>q\<in>set ps. \<exists>e. ?cd q = Some e \<and> e < th" using h(3) by auto
  next
    assume "\<exists>q\<in>set ps. \<exists>e. ?cd q = Some e \<and> e < th"
    then obtain q e where "q \<in> set ps" "?cd q = Some e" "e < th" by blast
    then have "js_le (bestDistance st) (Num e)" using h(2) by blast
    then have "bestDistance st \<noteq> PosInfinity" by auto
    then have "bestMatch st \<noteq> None" using h(3) by auto
    then show "findMatchingFaceDirectly t ps th \<noteq> None" using r by (auto split: option.splits)
  qed
  show "\<exists>p\<in>set ps. \<exists>e. match m = Some p \<and> distance m = Num e \<and> ?cd p = Some e \<and> e < th
        \<and> (\<forall>q\<in>set ps. \<forall>e'. ?cd q = Some e' \<longrightarrow> e \<le> e')"
    if a: "findMatchingFaceDirectly t ps th = Some m"
  proof -
    have bm: "bestMatch st \<noteq> None" and m: "m = \<lparr>match = bestMatch st, distance = bestDistance st\<rparr>"
      using a r by (auto split: option.splits)
    from bm h(3) obtain p e where
      p: "p \<in> set ps" "?cd p = Some e" "e < th" "bestDistance st = Num e" "bestMatch st = Some p"
      by auto
    have "e \<le> e'" if "q \<in> set ps" "?cd q = Some e'" for q e'
    proof (cases "e' < th")
      case True
      then show ?thesis using h(2) that p(4) by auto
    next
      case False
      then show ?thesis using p(3) by simp
    qed
    then show ?thesis using p m by auto
  qed
qed

lemma part3_iff_carried:
  "(findMatchingFace_part3 (Some t) (Some ps) th \<noteq> None)
     = (\<exists>q\<in>set ps. \<exists>e. candidate_distance distance8 t q = Some e \<and> e < th)"
  "findMatchingFace_part3 (Some t) (Some ps) th = Some m \<Longrightarrow>
     \<exists>p\<in>set ps. \<exists>e. match m = Some p \<and> distance m = Num e
        \<and> candidate_distance distance8 t p = Some e \<and> e < th
        \<and> (\<forall>q\<in>set ps. \<forall>e'. candidate_distance distance8 t q = Some e' \<longrightarrow> e \<le> e')"
proof -
  let ?cd = "candidate_distance distance8 t"
  obtain st :: search where
    h: "findMatchingFace_part3_counted (Some t) (Some ps) th =
        (if js_lt (bestDistance st) (Num th)
         then Some \<lparr>match = bestMatch st, distance = bestDistance st\<rparr> else None,
         length (filter has_descriptor ps))"
       "\<forall>q\<in>set ps. \<forall>e. ?cd q = Some e \<longrightarrow> js_le (bestDistance st) (Num e)"
       "(bestDistance st = PosInfinity \<and> bestMatch st = None)
         \<or> (\<exists>p\<in>set ps. \<exists>e. ?cd p = Some e \<and> bestDistance st = Num e \<and> bestMatch st = Some p)"
    by (rule part3_result)
  have r: "findMatchingFace_part3 (Some t) (Some ps) th =
      (if js_lt (bestDistance st) (Num th)
       then Some \<lparr>match = bestMatch st, distance = bestDistance st\<rparr> else None)"
    using h(1) by (simp add: findMatchingFace_part3_def)
  show "(findMatchingFace_part3 (Some t) (Some ps) th \<noteq> None)
        = (\<exists>q\<in>set ps. \<exists>e. ?cd q = Some e \<and> e < th)"
  proof
    assume "findMatchingFace_part3 (Some t) (Some ps) th \<noteq> None"
    then have lt: "js_lt (bestDistance st) (Num th)" using r by (auto split: if_splits)
    with h(3) obtain p e where "p \<in> set ps" "?cd p = Some e" "bestDistance st = Num e" by auto
    then show "\<exists>q\<in>set ps. \<exists>e. ?cd q = Some e \<and> e < th" using lt by auto
  next
    assume "\<exists>q\<in>set ps. \<exists>e. ?cd q = Some e \<and> e < th"
    then obtain q e where q: "q \<in> set ps" "?cd q = Some e" "e < th" by blast
    then have "js_le (bestDistance st) (Num e)" using h(2) by blast
    then have "js_lt (bestDistance st) (Num th)" using q(3) by (cases "bestDistance st") auto
    then show "findMatchingFace_part3 (Some t) (Some ps) th \<noteq> None" using r by simp
  qed
  show "\<exists>p\<in>set ps. \<exists>e. match m = Some p \<and> distance m = Num e \<and> ?cd p = Some e \<and> e < th
        \<and> (\<forall>q\<in>set ps. \<forall>e'. ?cd q = Some e' \<longrightarrow> e \<le> e')"
    if a: "findMatchingFace_part3 (Some t) (Some ps) th = Some m"
  proof -
    have lt: "js_lt (bestDistance st) (Num th)"
      and m: "m = \<lparr>match = bestMatch st, distance = bestDistance st\<rparr>"
      using a r by (auto split: if_splits)
    from lt h(3) obtain p e where
      p: "p \<in> set ps" "?cd p = Some e" "bestDistance st = Num e" "bestMatch st = Some p"
      by auto
    have mn: "\<forall>q\<in>set ps. \<forall>e'. ?cd q = Some e' \<longrightarrow> e \<le> e'"
      using h(2) p(3) by fastforce
    show ?thesis using p m mn lt by auto
  qed
qed

text \<open>
  Claim C2, as amended. Distances are the computed ones, doubles, and so is the threshold.
  \<open>findMatchingFace\<close> (utils) returns a match exactly when some candidate's distance is
  at most the threshold (the minimum distance is then at most the threshold); the distance
  it carries is the returned candidate's own distance, at most the threshold, and it is
  the minimum whenever no candidate is closer than the computed product
  \<open>threshold * 0.7\<close>. \<open>findMatchingFaceDirectly\<close> (server) and \<open>findMatchingFace\<close> of
  \<open>part_003\<close> return a match exactly when some candidate's distance is strictly below
  the threshold, and carry the minimum distance.
\<close>

theorem match_iff_within_threshold:
  "(is_double th \<longrightarrow>
      ((findMatchingFace (Some t) (Some ps) th \<noteq> None)
         = (\<exists>q\<in>set ps. \<exists>e. candidate_distance distance8 t q = Some e \<and> e \<le> th))
      \<and> (findMatchingFace (Some t) (Some ps) th = Some m \<longrightarrow>
           (\<exists>p\<in>set ps. \<exists>e. match m = Some p \<and> distance m = Num e
              \<and> candidate_distance distance8 t p = Some e \<and> e \<le> th
              \<and> ((\<forall>q\<in>set ps. \<forall>e'. candidate_distance distance8 t q = Some e' \<longrightarrow>
                       \<not> js_lt (Num e') (early_cut th))
                   \<longrightarrow> (\<forall>q\<in>set ps. \<forall>e'. candidate_distance distance8 t q = Some e' \<longrightarrow> e \<le> e')))))
   \<and> ((findMatchingFaceDirectly t ps th \<noteq> None)
      = (\<exists>q\<in>set ps. \<exists>e. candidate_distance distance4 t q = Some e \<and> e < th))
   \<and> (findMatchingFaceDirectly t ps th = Some m1 \<longrightarrow>
        (\<exists>p\<in>set ps. \<exists>e. match m1 = Some p \<and> distance m1 = Num e
           \<and> candidate_distance distance4 t p = Some e \<and> e < th
           \<and> (\<forall>q\<in>set ps. \<forall>e'. candidate_distance distance4 t q = Some e' \<longrightarrow> e \<le> e')))
   \<and> ((findMatchingFace_part3 (Some t) (Some ps) th \<noteq> None)
      = (\<exists>q\<in>set ps. \<exists>e. candidate_distance distance8 t q = Some e \<and> e < th))
   \<and> (findMatchingFace_part3 (Some t) (Some ps) th = Some m3 \<longrightarrow>
        (\<exists>p\<in>set ps. \<exists>e. match m3 = Some p \<and> distance m3 = Num e
           \<and> candidate_distance distance8 t p = Some e \<and> e < th
           \<and> (\<forall>q\<in>set ps. \<forall>e'. candidate_distance distance8 t q = Some e' \<longrightarrow> e \<le> e')))"
  using utils_iff [where th = th and t = t and ps = ps]
    utils_carried [where th = th and t = t and ps = ps and m = m]
    direct_iff_carried(1) [of t ps th] direct_iff_carried(2) [of t ps th m1]
    part3_iff_carried(1) [of t ps th] part3_iff_carried(2) [of t ps th m3]
  by blast

lemma ex2_utils:
  "findMatchingFace (Some [0]) (Some [profile_A, profile_B]) (1 / 2)
   = Some \<lparr>match = Some profile_A, distance = Num (1 / 4)\<rparr>"
  by (simp add: eval_search)

lemma ex2_direct:
  "findMatchingFaceDirectly [0] [profile_A, profile_B] (1 / 2)
   = Some \<lparr>match = Some profile_B, distance = Num 0\<rparr>"
  by (simp add: eval_search)

lemma ex2_part3:
  "findMatchingFace_part3 (Some [0]) (Some [profile_A, profile_B]) (1 / 2)
   = Some \<lparr>match = Some profile_B, distance = Num 0\<rparr>"
  by (simp add: eval_search)

theorem match_iff_within_threshold_witness:
  "is_double (1 / 2)
   \<and> findMatchingFace (Some [0]) (Some [profile_A, profile_B]) (1 / 2)
     = Some \<lparr>match = Some profile_A, distance = Num (1 / 4)\<rparr>
   \<and> (\<exists>p\<in>set [profile_A, profile_B]. \<exists>e.
         match \<lparr>match = Some profile_A, distance = Num (1 / 4)\<rparr> = Some p
         \<and> distance \<lparr>match = Some profile_A, distance = Num (1 / 4)\<rparr> = Num e
         \<and> candidate_distance distance8 [0] p = Some e \<and> e \<le> 1 / 2)
   \<and> findMatchingFaceDirectly [0] [profile_A, profile_B] (1 / 2)
     = Some \<lparr>match = Some profile_B, distance = Num 0\<rparr>
   \<and> (\<exists>p\<in>set [profile_A, profile_B]. \<exists>e.
         match \<lparr>match = Some profile_B, distance = Num 0\<rparr> = Some p
         \<and> distance \<lparr>match = Some profile_B, distance = Num 0\<rparr> = Num e
         \<and> candidate_distance distance4 [0] p = Some e \<and> e < 1 / 2
         \<and> (\<forall>q\<in>set [profile_A, profile_B]. \<forall>e'.
               candidate_distance distance4 [0] q = Some e' \<longrightarrow> e \<le> e'))
   \<and> findMatchingFace_part3 (Some [0]) (Some [profile_A, profile_B]) (1 / 2)
     = Some \<lparr>match = Some profile_B, distance = Num 0\<rparr>
   \<and> (\<exists>p\<in>set [profile_A, profile_B]. \<exists>e.
         match \<lparr>match = Some profile_B, distance = Num 0\<rparr> = Some p
         \<and> distance \<lparr>match = Some profile_B, distance = Num 0\<rparr> = Num e
         \<and> candidate_distance distance8 [0] p = Some e \<and> e < 1 / 2
         \<and> (\<forall>q\<in>set [profile_A, profile_B]. \<forall>e'.
               candidate_distance distance8 [0] q = Some e' \<longrightarrow> e \<le> e'))"
  using match_iff_within_threshold [of "1 / 2" "[0]" "[profile_A, profile_B]"
      "\<lparr>match = Some profile_A, distance = Num (1 / 4)\<rparr>"
      "\<lparr>match = Some profile_B, distance = Num 0\<rparr>"
      "\<lparr>match = Some profile_B, distance = Num 0\<rparr>"]
    ex2_utils ex2_direct ex2_part3 is_double_half
  by blast

text \<open>
  Claim C2 as stated fails in both of its parts. On \<open>findMatchingFace\<close> (utils), with the
  query \<open>[0]\<close>, the candidates \<open>A = [0.25]\<close>, \<open>B = [0]\<close> and the threshold \<open>0.5\<close>, the
  distance carried is \<open>0.25\<close>, not the minimum \<open>0\<close>. On \<open>findMatchingFaceDirectly\<close>
  and on \<open>findMatchingFace\<close> of \<open>part_003\<close>, the single candidate \<open>C = [0.5]\<close> is at
  distance \<open>0.5\<close>, which is at most the threshold \<open>0.5\<close>, and the result is \<open>null\<close>.
\<close>

theorem threshold_counterexample:
  "findMatchingFace (Some [0]) (Some [profile_A, profile_B]) (1 / 2)
     = Some \<lparr>match = Some profile_A, distance = Num (1 / 4)\<rparr>
   \<and> candidate_distance distance8 [0] profile_B = Some 0
   \<and> candidate_distance distance4 [0] profile_C = Some (1 / 2)
   \<and> candidate_distance distance8 [0] profile_C = Some (1 / 2)
   \<and> findMatchingFaceDirectly [0] [profile_C] (1 / 2) = None
   \<and> findMatchingFace_part3 (Some [0]) (Some [profile_C]) (1 / 2) = None"
  by (simp add: eval_search)

text \<open>
  Claim C7. On an empty candidate list every implementation returns \<open>null\<close>, whatever the
  query descriptor (present or not) and the threshold, and computes no distance.
\<close>

theorem empty_candidates_no_match:
  "findMatchingFace_counted targetDescriptor (Some []) threshold = (None, 0)
   \<and> findMatchingFace targetDescriptor (Some []) threshold = None
   \<and> findMatchingFace_server_counted CPU_CORES targetDescriptor (Some []) threshold = (Null, 0)
   \<and> findMatchingFace_part3_counted targetDescriptor (Some []) threshold = (None, 0)
   \<and> findMatchingFace_part3 targetDescriptor (Some []) threshold = None"
  by (simp add: findMatchingFace_counted_def findMatchingFace_def
      findMatchingFace_server_counted_def findMatchingFace_part3_counted_def
      findMatchingFace_part3_def split: option.splits)

section \<open>Candidates that cannot be compared\<close>

lemma unusable_None:
  assumes "unusable t p"
  shows "candidate_distance distance8 t p = None" "candidate_distance distance4 t p = None"
  using assms
  by (auto simp: unusable_def candidate_distance_def distance8_short distance4_short
      split: option.splits)

lemma same_best_compared [simp]:
  "same_best (st\<lparr>compared := n\<rparr>) st' = same_best st st'"
  "same_best st (st'\<lparr>compared := n\<rparr>) = same_best st st'"
  by (simp_all add: same_best_def)

lemma scan_batch_filter:
  "same_best st st' \<Longrightarrow>
     same_scan (scan_batch t th ps st) (scan_batch t th (filter (\<lambda>p. \<not> unusable t p) ps) st')"
proof (induction ps arbitrary: st st')
  case Nil
  then show ?case by simp
next
  case (Cons p ps)
  show ?case
  proof (cases "unusable t p")
    case u: True
    then have None: "candidate_distance distance8 t p = None" by (rule unusable_None)
    show ?thesis
    proof (cases "has_descriptor p")
      case True
      have "same_scan (scan_batch t th ps (st\<lparr>compared := compared st + 1\<rparr>))
              (scan_batch t th (filter (\<lambda>p. \<not> unusable t p) ps) st')"
        by (rule Cons.IH) (simp add: Cons.prems)
      then show ?thesis using u None True by (simp add: scan_batch_step)
    next
      case False
      then show ?thesis using u Cons.IH [OF Cons.prems] by (simp add: scan_batch_step)
    qed
  next
    case u: False
    then have hd: "has_descriptor p"
      by (auto simp: unusable_def has_descriptor_def split: option.splits)
    have bd: "bestDistance st' = bestDistance st" using Cons.prems by (simp add: same_best_def)
    show ?thesis
    proof (cases "candidate_distance distance8 t p")
      case None
      have "same_scan (scan_batch t th ps (st\<lparr>compared := compared st + 1\<rparr>))
              (scan_batch t th (filter (\<lambda>p. \<not> unusable t p) ps) (st'\<lparr>compared := compared st' + 1\<rparr>))"
        by (rule Cons.IH) (simp add: Cons.prems)
      then show ?thesis using u None hd by (simp add: scan_batch_step)
    next
      case (Some e)
      show ?thesis
      proof (cases "js_lt (Num e) (bestDistance st)")
        case True
        have "same_scan
                (scan_batch t th ps (st\<lparr>compared := compared st + 1, bestDistance := Num e, bestMatch := Some p\<rparr>))
                (scan_batch t th (filter (\<lambda>p. \<not> unusable t p) ps)
                   (st'\<lparr>compared := compared st' + 1, bestDistance := Num e, bestMatch := Some p\<rparr>))"
          by (rule Cons.IH) (simp add: same_best_def)
        then show ?thesis using u Some hd True bd by (simp add: scan_batch_step)
      next
        case False
        have "same_scan (scan_batch t th ps (st\<lparr>compared := compared st + 1\<rparr>))
                (scan_batch t th (filter (\<lambda>p. \<not> unusable t p) ps) (st'\<lparr>compared := compared st' + 1\<rparr>))"
          by (rule Cons.IH) (simp add: Cons.prems)
        then show ?thesis using u Some hd False bd by (auto simp: scan_batch_step)
      qed
    qed
  qed
qed

lemma direct_loop_filter:
  "same_best st st' \<Longrightarrow>
     same_best (direct_loop t th ps st) (direct_loop t th (filter (\<lambda>p. \<not> unusable t p) ps) st')"
proof (induction ps arbitrary: st st')
  case Nil
  then show ?case by simp
next
  case (Cons p ps)
  show ?case
  proof (cases "unusable t p")
    case u: True
    then have None: "candidate_distance distance4 t p = None" by (rule unusable_None)
    show ?thesis
    proof (cases "has_descriptor p")
      case True
      have "same_best (direct_loop t th ps (st\<lparr>compared := compared st + 1\<rparr>))
              (direct_loop t th (filter (\<lambda>p. \<not> unusable t p) ps) st')"
        by (rule Cons.IH) (simp add: Cons.prems)
      then show ?thesis using u None True by (simp add: direct_loop_step)
    next
      case False
      then show ?thesis using u Cons.IH [OF Cons.prems] by (simp add: direct_loop_step)
    qed
  next
    case u: False
    then have hd: "has_descriptor p"
      by (auto simp: unusable_def has_descriptor_def split: option.splits)
    have bd: "bestDistance st' = bestDistance st" using Cons.prems by (simp add: same_best_def)
    show ?thesis
    proof (cases "candidate_distance distance4 t p")
      case None
      have "same_best (direct_loop t th ps (st\<lparr>compared := compared st + 1\<rparr>))
              (direct_loop t th (filter (\<lambda>p. \<not> unusable t p) ps) (st'\<lparr>compared := compared st' + 1\<rparr>))"
        by (rule Cons.IH) (simp add: Cons.prems)
      then show ?thesis using u None hd by (simp add: direct_loop_step)
    next
      case (Some e)
      show ?thesis
      proof (cases "e < th \<and> js_lt (Num e) (bestDistance st)")
        case True
        have "same_best
                (direct_loop t th ps (st\<lparr>compared := compared st + 1, bestDistance := Num e, bestMatch := Some p\<rparr>))
                (direct_loop t th (filter (\<lambda>p. \<not> unusable t p) ps)
                   (st'\<lparr>compared := compared st' + 1, bestDistance := Num e, bestMatch := Some p\<rparr>))"
          by (rule Cons.IH) (simp add: same_best_def)
        then show ?thesis using u Some hd True bd by (simp add: direct_loop_step)
      next
        case False
        have "same_best (direct_loop t th ps (st\<lparr>compared := compared st + 1\<rparr>))
                (direct_loop t th (filter (\<lambda>p. \<not> unusable t p) ps) (st'\<lparr>compared := compared st' + 1\<rparr>))"
          by (rule Cons.IH) (simp add: Cons.prems)
        then show ?thesis using u Some hd False bd by (auto simp: direct_loop_step)
      qed
    qed
  qed
qed

lemma part3_loop_filter:
  "same_best st st' \<Longrightarrow>
     same_best (part3_loop t ps st) (part3_loop t (filter (\<lambda>p. \<not> unusable t p) ps) st')"
proof (induction ps arbitrary: st st')
  case Nil
  then show ?case by simp
next
  case (Cons p ps)
  show ?case
  proof (cases "unusable t p")
    case u: True
    then have None: "candidate_distance distance8 t p = None" by (rule unusable_None)
    show ?thesis
    proof (cases "has_descriptor p")
      case True
      have "same_best (part3_loop t ps (st\<lparr>compared := compared st + 1\<rparr>))
              (part3_loop t (filter (\<lambda>p. \<not> unusable t p) ps) st')"
        by (rule Cons.IH) (simp add: Cons.prems)
      then show ?thesis using u None True by (simp add: part3_loop_step)
    next
      case False
      then show ?thesis using u Cons.IH [OF Cons.prems] by (simp add: part3_loop_step)
    qed
  next
    case u: False
    then have hd: "has_descriptor p"
      by (auto simp: unusable_def has_descriptor_def split: option.splits)
    have bd: "bestDistance st' = bestDistance st" using Cons.prems by (simp add: same_best_def)
    show ?thesis
    proof (cases "candidate_distance distance8 t p")
      case None
      have "same_best (part3_loop t ps (st\<lparr>compared := compared st + 1\<rparr>))
              (part3_loop t (filter (\<lambda>p. \<not> unusable t p) ps) (st'\<lparr>compared := compared st' + 1\<rparr>))"
        by (rule Cons.IH) (simp add: Cons.prems)
      then show ?thesis using u None hd by (simp add: part3_loop_step)
    next
      case (Some e)
      show ?thesis
      proof (cases "js_lt (Num e) (bestDistance st)")
        case True
        have "same_best
                (part3_loop t ps (st\<lparr>compared := compared st + 1, bestDistance := Num e, bestMatch := Some p\<rparr>))
                (part3_loop t (filter (\<lambda>p. \<not> unusable t p) ps)
                   (st'\<lparr>compared := compared st' + 1, bestDistance := Num e, bestMatch := Some p\<rparr>))"
          by (rule Cons.IH) (simp add: same_best_def)
        then show ?thesis using u Some hd True bd by (simp add: part3_loop_step)
      next
        case False
        have "same_best (part3_loop t ps (st\<lparr>compared := compared st + 1\<rparr>))
                (part3_loop t (filter (\<lambda>p. \<not> unusable t p) ps) (st'\<lparr>compared := compared st' + 1\<rparr>))"
          by (rule Cons.IH) (simp add: Cons.prems)
        then show ?thesis using u Some hd False bd by (auto simp: part3_loop_step)
      qed
    qed
  qed
qed

lemma same_best_refl: "same_best st st"
  by (simp add: same_best_def)

lemma utils_filter:
  "findMatchingFace (Some t) (Some ps) th
     = findMatchingFace (Some t) (Some (filter (\<lambda>p. \<not> unusable t p) ps)) th"
  using scan_batch_filter [OF same_best_refl, of t th ps search_init]
  by (cases "scan_batch t th ps search_init";
      cases "scan_batch t th (filter (\<lambda>p. \<not> unusable t p) ps) search_init")
     (simp_all add: findMatchingFace_def findMatchingFace_counted_eq same_best_def)

lemma direct_filter:
  "findMatchingFaceDirectly t ps th
     = findMatchingFaceDirectly t (filter (\<lambda>p. \<not> unusable t p) ps) th"
  using direct_loop_filter [OF same_best_refl, of t th ps search_init]
  by (auto simp: findMatchingFaceDirectly_def findMatchingFaceDirectly_counted_def Let_def
      same_best_def split: option.splits)

lemma part3_counted_eq:
  "findMatchingFace_part3_counted (Some t) (Some ps) th =
     (let st = part3_loop t ps search_init
      in (if js_lt (bestDistance st) (Num th)
          then Some \<lparr>match = bestMatch st, distance = bestDistance st\<rparr> else None,
          compared st))"
  by (cases ps) (simp_all add: findMatchingFace_part3_counted_def search_init_def)

lemma part3_filter:
  "findMatchingFace_part3 (Some t) (Some ps) th
     = findMatchingFace_part3 (Some t) (Some (filter (\<lambda>p. \<not> unusable t p) ps)) th"
  using part3_loop_filter [OF same_best_refl, of t ps search_init]
  by (simp add: findMatchingFace_part3_def part3_counted_eq Let_def same_best_def)

lemma utils_match_compared:
  assumes "findMatchingFace (Some t) (Some ps) th = Some m"
  shows "\<exists>p\<in>set ps. \<exists>e. match m = Some p \<and> candidate_distance distance8 t p = Some e"
proof (cases "scan_batch t th ps search_init")
  case (Return m' k)
  have mm: "m' = m" using utils_early(1) [OF Return] assms by (simp add: findMatchingFace_def)
  from utils_early(2) [OF Return] obtain pre p post e where
    h: "ps = pre @ p # post" "candidate_distance distance8 t p = Some e"
       "m' = \<lparr>match = Some p, distance = Num e\<rparr>"
    by blast
  have "p \<in> set ps" using h(1) by simp
  then show ?thesis using h(2,3) mm by auto
next
  case (Continue st)
  note u = utils_full [OF Continue]
  have le: "js_le (bestDistance st) (Num th)"
    and m: "m = \<lparr>match = bestMatch st, distance = bestDistance st\<rparr>"
    using u(1) assms by (auto simp: findMatchingFace_def split: if_splits)
  from le u(3) obtain p e where
    "p \<in> set ps" "candidate_distance distance8 t p = Some e" "bestMatch st = Some p"
    by auto
  then show ?thesis using m by auto
qed

text \<open>
  Claim C8, as amended. A candidate whose descriptor is missing, or has fewer entries
  than the query (the empty array included), is never returned as the match, and the
  result of each search is the result on the list without these candidates: their
  presence changes nothing for the others. (A descriptor with more entries than the
  query is not skipped: it is compared on its leading entries.)
\<close>

theorem unusable_candidates_skipped:
  "findMatchingFace (Some t) (Some ps) th
     = findMatchingFace (Some t) (Some (filter (\<lambda>p. \<not> unusable t p) ps)) th
   \<and> (findMatchingFace (Some t) (Some ps) th = Some m \<longrightarrow>
        (\<exists>p\<in>set ps. match m = Some p \<and> \<not> unusable t p))
   \<and> findMatchingFaceDirectly t ps th
     = findMatchingFaceDirectly t (filter (\<lambda>p. \<not> unusable t p) ps) th
   \<and> (findMatchingFaceDirectly t ps th = Some m1 \<longrightarrow>
        (\<exists>p\<in>set ps. match m1 = Some p \<and> \<not> unusable t p))
   \<and> findMatchingFace_part3 (Some t) (Some ps) th
     = findMatchingFace_part3 (Some t) (Some (filter (\<lambda>p. \<not> unusable t p) ps)) th
   \<and> (findMatchingFace_part3 (Some t) (Some ps) th = Some m3 \<longrightarrow>
        (\<exists>p\<in>set ps. match m3 = Some p \<and> \<not> unusable t p))"
proof (intro conjI impI)
  show "findMatchingFace (Some t) (Some ps) th
     = findMatchingFace (Some t) (Some (filter (\<lambda>p. \<not> unusable t p) ps)) th"
    by (rule utils_filter)
  show "findMatchingFaceDirectly t ps th
     = findMatchingFaceDirectly t (filter (\<lambda>p. \<not> unusable t p) ps) th"
    by (rule direct_filter)
  show "findMatchingFace_part3 (Some t) (Some ps) th
     = findMatchingFace_part3 (Some t) (Some (filter (\<lambda>p. \<not> unusable t p) ps)) th"
    by (rule part3_filter)
next
  assume "findMatchingFace (Some t) (Some ps) th = Some m"
  from utils_match_compared [OF this] show "\<exists>p\<in>set ps. match m = Some p \<and> \<not> unusable t p"
    using unusable_None(1) by fastforce
next
  assume "findMatchingFaceDirectly t ps th = Some m1"
  from direct_iff_carried(2) [OF this] show "\<exists>p\<in>set ps. match m1 = Some p \<and> \<not> unusable t p"
    using unusable_None(2) by fastforce
next
  assume "findMatchingFace_part3 (Some t) (Some ps) th = Some m3"
  from part3_iff_carried(2) [OF this] show "\<exists>p\<in>set ps. match m3 = Some p \<and> \<not> unusable t p"
    using unusable_None(1) by fastforce
qed

lemma ex3_filter:
  "filter (\<lambda>p. \<not> unusable [0] p) [profile_missing, profile_empty, profile_B] = [profile_B]"
  by (simp add: unusable_def profile_missing_def profile_empty_def profile_B_def)

lemma ex3_results:
  "findMatchingFace (Some [0]) (Some [profile_missing, profile_empty, profile_B]) (1 / 2)
     = Some \<lparr>match = Some profile_B, distance = Num 0\<rparr>"
  "findMatchingFaceDirectly [0] [profile_missing, profile_empty, profile_B] (1 / 2)
     = Some \<lparr>match = Some profile_B, distance = Num 0\<rparr>"
  "findMatchingFace_part3 (Some [0]) (Some [profile_missing, profile_empty, profile_B]) (1 / 2)
     = Some \<lparr>match = Some profile_B, distance = Num 0\<rparr>"
  by (simp_all add: eval_search)

theorem unusable_candidates_skipped_witness:
  "findMatchingFace (Some [0]) (Some [profile_missing, profile_empty, profile_B]) (1 / 2)
     = Some \<lparr>match = Some profile_B, distance = Num 0\<rparr>
   \<and> findMatchingFace (Some [0]) (Some [profile_B]) (1 / 2)
     = Some \<lparr>match = Some profile_B, distance = Num 0\<rparr>
   \<and> (\<exists>p\<in>set [profile_missing, profile_empty, profile_B].
         match \<lparr>match = Some profile_B, distance = Num 0\<rparr> = Some p \<and> \<not> unusable [0] p)
   \<and> unusable [0] profile_missing \<and> unusable [0] profile_empty
   \<and> findMatchingFaceDirectly [0] [profile_B] (1 / 2)
     = Some \<lparr>match = Some profile_B, distance = Num 0\<rparr>
   \<and> findMatchingFace_part3 (Some [0]) (Some [profile_B]) (1 / 2)
     = Some \<lparr>match = Some profile_B, distance = Num 0\<rparr>"
proof -
  note w = unusable_candidates_skipped [of "[0]" "[profile_missing, profile_empty, profile_B]"
      "1 / 2" "\<lparr>match = Some profile_B, distance = Num 0\<rparr>"
      "\<lparr>match = Some profile_B, distance = Num 0\<rparr>"
      "\<lparr>match = Some profile_B, distance = Num 0\<rparr>", unfolded ex3_filter]
  have u: "unusable [0] profile_missing" "unusable [0] profile_empty"
    by (simp_all add: unusable_def profile_missing_def profile_empty_def)
  from w ex3_results u show ?thesis by metis
qed

text \<open>
  Claim C8 as stated fails for a descriptor of the wrong length that is too long: with
  the query \<open>[0]\<close> and the single candidate \<open>L = [0, 5]\<close>, every search returns \<open>L\<close>
  at distance \<open>0\<close>.
\<close>

theorem long_descriptor_counterexample:
  "faceDescriptor profile_long = Some [0, 5]
   \<and> findMatchingFace (Some [0]) (Some [profile_long]) (1 / 2)
     = Some \<lparr>match = Some profile_long, distance = Num 0\<rparr>
   \<and> findMatchingFaceDirectly [0] [profile_long] (1 / 2)
     = Some \<lparr>match = Some profile_long, distance = Num 0\<rparr>
   \<and> findMatchingFace_part3 (Some [0]) (Some [profile_long]) (1 / 2)
     = Some \<lparr>match = Some profile_long, distance = Num 0\<rparr>"
  by (simp add: eval_search)

section \<open>The model loader\<close>


lemma reachable_server_inv:
  "reachable_server s \<Longrightarrow>
     (modelLoadingPromise s \<noteq> None \<longrightarrow> \<not> modelsLoaded s)
     \<and> loadsStarted s = loadsSettled s + (case modelLoadingPromise s of None \<Rightarrow> 0 | Some p \<Rightarrow> 1)"
proof (induction rule: reachable_server.induct)
  case start
  show ?case by (simp add: initial_state_def)
next
  case (call s)
  then show ?case by (auto simp: loadModels_server_def split: option.splits)
next
  case (fulfilled s)
  then show ?case by (auto simp: server_loaded_def)
next
  case (rejected s)
  then show ?case by (auto simp: server_failed_def)
next
  case (cache s c a n k f)
  then show ?case by (simp add: cache_activity_def)
qed











section \<open>Descriptor extraction\<close>

lemma map_has_get: "map_has k m = (map_get k m \<noteq> None)"
  by (simp add: map_has_def map_get_def map_of_eq_None_iff)

lemma map_get_set_same: "map_get k (map_set k v m) = Some v"
  by (induction m) (auto simp: map_get_def)

lemma map_get_set_other: "k' \<noteq> k \<Longrightarrow> map_get k' (map_set k v m) = map_get k' m"
  by (induction m) (auto simp: map_get_def)

lemma map_get_delete_other: "k' \<noteq> k \<Longrightarrow> map_get k' (map_delete k m) = map_get k' m"
  by (induction m) (auto simp: map_get_def map_delete_def)

lemma map_get_delete_same: "map_get k (map_delete k m) = None"
  by (induction m) (auto simp: map_get_def map_delete_def)

lemma keys_map_set: "set (map fst (map_set k v m)) = insert k (set (map fst m))"
proof (induction m)
  case Nil
  show ?case by simp
next
  case (Cons kv m)
  obtain k' v' where kv: "kv = (k', v')" by (cases kv)
  show ?case using Cons unfolding kv by (cases "k' = k") auto
qed

lemma map_set_new: "\<not> map_has k m \<Longrightarrow> map_set k v m = m @ [(k, v)]"
  by (induction m) (auto simp: map_has_def)

lemma await_frame:
  "await_loadModels outcome t s = (r, s') \<Longrightarrow>
     descriptorCache s' = descriptorCache s \<and> cacheAccessOrder s' = cacheAccessOrder s
     \<and> pipelineRuns s' = pipelineRuns s \<and> tick s' = tick s \<and> lastUse s' = lastUse s"
  by (auto simp: await_loadModels_def loadModels_def then_handler_def catch_handler_def
      split: if_splits option.splits load_outcome.splits)

lemma await_server_frame:
  "await_loadModels_server outcome s = (r, s') \<Longrightarrow>
     descriptorCache s' = descriptorCache s \<and> cacheAccessOrder s' = cacheAccessOrder s
     \<and> pipelineRuns s' = pipelineRuns s \<and> tick s' = tick s \<and> lastUse s' = lastUse s"
  by (auto simp: await_loadModels_server_def loadModels_server_def server_loaded_def
      server_failed_def split: if_splits option.splits load_outcome.splits)

lemma extract_never_throws: "\<exists>r s'. extractFaceDescriptor env b t s = (Inr r, s')"
  by (auto simp: extractFaceDescriptor_def Let_def split: prod.splits option.splits sum.splits)

lemma extract_server_never_throws:
  "fst (await_loadModels_server (loadOutcome env) s) = None \<Longrightarrow>
     \<exists>r s'. extractFaceDescriptor_server env b s = (Inr r, s')"
  by (auto simp: extractFaceDescriptor_server_def Let_def
      split: prod.splits option.splits sum.splits)

lemma extract_failure_is_null:
  assumes "\<not> map_has (hashBuffer b) (descriptorCache s)"
    and "\<forall>d. run_pipeline env b \<noteq> Inr (Some d)"
  shows "fst (extractFaceDescriptor env b t s) = Inr None"
proof (cases "await_loadModels (loadOutcome env) t s")
  case (Pair r s1)
  have "descriptorCache s1 = descriptorCache s" using await_frame [OF Pair] by simp
  then show ?thesis
    using assms Pair
    by (auto simp: extractFaceDescriptor_def Let_def split: option.splits sum.splits)
qed

lemma extract_server_failure_is_null:
  assumes "\<not> map_has (take 50 (base64 b)) (descriptorCache s)"
    and "fst (await_loadModels_server (loadOutcome env) s) = None"
    and "\<forall>d. run_pipeline env b \<noteq> Inr (Some d)"
  shows "fst (extractFaceDescriptor_server env b s) = Inr None"
  using assms
  by (auto simp: extractFaceDescriptor_server_def Let_def
      split: prod.splits option.splits sum.splits)

lemma hashBuffer_empty: "hashBuffer [] = 5381"
  by (simp add: hashBuffer_def)

lemmas eval_extract = extractFaceDescriptor_def extractFaceDescriptor_server_def
  await_loadModels_def await_loadModels_server_def loadModels_def loadModels_server_def
  then_handler_def catch_handler_def server_loaded_def server_failed_def
  run_pipeline_def cache_insert_def cache_insert_server_def touch_def updateCacheAccess_def
  map_has_def map_get_def map_delete_def initial_state_def hashBuffer_empty
  MODEL_VALIDITY_DURATION_def CACHE_SIZE_LIMIT_def Let_def
  env_face_def env_no_face_def env_decode_throws_def env_load_fails_def

text \<open>
  Claim C10. \<open>extractFaceDescriptor\<close> of \<open>src/utils/db.js\<close> never rejects: every
  outcome is a value. \<open>extractFaceDescriptor\<close> of the server module never rejects
  when its model load succeeds. In both, on a cache miss, every failure of the pipeline
  (an exception in decoding, detection or embedding, no face, no descriptor) gives
  \<open>null\<close>.
\<close>

theorem extraction_never_throws:
  "(\<exists>r s'. extractFaceDescriptor env b t s = (Inr r, s'))
   \<and> (fst (await_loadModels_server (loadOutcome env) z) = None \<longrightarrow>
        (\<exists>r z'. extractFaceDescriptor_server env b z = (Inr r, z')))
   \<and> (\<not> map_has (hashBuffer b) (descriptorCache s) \<and> (\<forall>d. run_pipeline env b \<noteq> Inr (Some d)) \<longrightarrow>
        fst (extractFaceDescriptor env b t s) = Inr None)
   \<and> (\<not> map_has (take 50 (base64 b)) (descriptorCache z)
        \<and> fst (await_loadModels_server (loadOutcome env) z) = None
        \<and> (\<forall>d. run_pipeline env b \<noteq> Inr (Some d)) \<longrightarrow>
        fst (extractFaceDescriptor_server env b z) = Inr None)"
  using extract_never_throws [of env b t s] extract_server_never_throws [of env z b]
    extract_failure_is_null [of b s env t] extract_server_failure_is_null [of b z env]
  by blast

theorem extraction_never_throws_witness:
  "fst (await_loadModels_server (loadOutcome env_decode_throws) (initial_state :: string module_state)) = None
   \<and> run_pipeline env_decode_throws [] = Inl (Error ''decode'')
   \<and> fst (extractFaceDescriptor env_decode_throws [] 0 initial_state) = Inr None
   \<and> fst (extractFaceDescriptor_server env_decode_throws [] initial_state) = Inr None"
proof -
  let ?z = "initial_state :: string module_state"
  let ?s = "initial_state :: int module_state"
  have a: "fst (await_loadModels_server (loadOutcome env_decode_throws) ?z) = None"
    by (simp add: eval_extract)
  have p: "run_pipeline env_decode_throws [] = Inl (Error ''decode'')"
    by (simp add: eval_extract)
  then have q: "\<forall>d. run_pipeline env_decode_throws [] \<noteq> Inr (Some d)" by simp
  have m: "\<not> map_has (hashBuffer []) (descriptorCache ?s)"
    "\<not> map_has (take 50 (base64 [])) (descriptorCache ?z)"
    by (simp_all add: map_has_def initial_state_def)
  from extraction_never_throws [of env_decode_throws "[]" 0 ?s ?z] a p q m
  show ?thesis by blast
qed

lemma load_failure_utils:
  assumes "loadModels t s = (Pending p, s1)" "loadOutcome env = LoadFails e"
  shows "extractFaceDescriptor env b t s = (Inr None, catch_handler s1)"
    and "modelLoadingPromise (catch_handler s1) = None"
    and "modelsLoaded (catch_handler s1) = modelsLoaded s"
    and "\<forall>t'. t \<le> t' \<longrightarrow> loadModels t' (catch_handler s1) =
           (Pending (loadsStarted s1),
            (catch_handler s1)\<lparr>modelLoadingPromise := Some (loadsStarted s1),
                                 loadsStarted := loadsStarted s1 + 1\<rparr>)"
proof -
  show "extractFaceDescriptor env b t s = (Inr None, catch_handler s1)"
    using assms by (simp add: extractFaceDescriptor_def await_loadModels_def)
  show "modelLoadingPromise (catch_handler s1) = None" by (simp add: catch_handler_def)
  have stale: "\<not> (modelsLoaded s \<and> t - lastModelLoadTime s < MODEL_VALIDITY_DURATION)"
    using assms(1) by (auto simp: loadModels_def)
  have same: "modelsLoaded s1 = modelsLoaded s" "lastModelLoadTime s1 = lastModelLoadTime s"
    using assms(1) by (auto simp: loadModels_def split: if_splits option.splits)
  show "modelsLoaded (catch_handler s1) = modelsLoaded s"
    using same by (simp add: catch_handler_def)
  show "\<forall>t'. t \<le> t' \<longrightarrow> loadModels t' (catch_handler s1) =
           (Pending (loadsStarted s1),
            (catch_handler s1)\<lparr>modelLoadingPromise := Some (loadsStarted s1),
                                 loadsStarted := loadsStarted s1 + 1\<rparr>)"
  proof (intro allI impI)
    fix t' :: int assume "t \<le> t'"
    then have "\<not> (modelsLoaded s \<and> t' - lastModelLoadTime s < MODEL_VALIDITY_DURATION)"
      using stale by auto
    then show "loadModels t' (catch_handler s1) =
           (Pending (loadsStarted s1),
            (catch_handler s1)\<lparr>modelLoadingPromise := Some (loadsStarted s1),
                                 loadsStarted := loadsStarted s1 + 1\<rparr>)"
      using same by (simp add: loadModels_def catch_handler_def)
  qed
qed

lemma load_failure_server:
  assumes "\<not> map_has (take 50 (base64 b)) (descriptorCache z)"
    "loadModels_server z = (Pending p, z1)" "loadOutcome env = LoadFails e"
  shows "extractFaceDescriptor_server env b z = (Inl e, server_failed z1)"
    and "modelLoadingPromise (server_failed z1) = None"
    and "modelsLoaded (server_failed z1) = modelsLoaded z"
    and "reachable_server z \<longrightarrow>
           \<not> modelsLoaded (server_failed z1)
           \<and> loadModels_server (server_failed z1) =
               (Pending (loadsStarted z1),
                (server_failed z1)\<lparr>modelLoadingPromise := Some (loadsStarted z1),
                                    loadsStarted := loadsStarted z1 + 1\<rparr>)"
proof -
  show "extractFaceDescriptor_server env b z = (Inl e, server_failed z1)"
    using assms by (simp add: extractFaceDescriptor_server_def await_loadModels_server_def Let_def)
  show "modelLoadingPromise (server_failed z1) = None" by (simp add: server_failed_def)
  have same: "modelsLoaded z1 = modelsLoaded z"
    using assms(2) by (auto simp: loadModels_server_def split: if_splits option.splits)
  show "modelsLoaded (server_failed z1) = modelsLoaded z"
    using same by (simp add: server_failed_def)
  show "reachable_server z \<longrightarrow>
           \<not> modelsLoaded (server_failed z1)
           \<and> loadModels_server (server_failed z1) =
               (Pending (loadsStarted z1),
                (server_failed z1)\<lparr>modelLoadingPromise := Some (loadsStarted z1),
                                    loadsStarted := loadsStarted z1 + 1\<rparr>)"
  proof
    assume r: "reachable_server z"
    have "\<not> modelsLoaded z"
      using reachable_server_inv [OF r] assms(2)
      by (auto simp: loadModels_server_def split: if_splits option.splits)
    then show "\<not> modelsLoaded (server_failed z1)
           \<and> loadModels_server (server_failed z1) =
               (Pending (loadsStarted z1),
                (server_failed z1)\<lparr>modelLoadingPromise := Some (loadsStarted z1),
                                    loadsStarted := loadsStarted z1 + 1\<rparr>)"
      using same by (simp add: loadModels_server_def server_failed_def)
  qed
qed

text \<open>
  Claim C3, as amended. When the model load awaited inside \<open>extractFaceDescriptor\<close> of
  \<open>src/utils/db.js\<close> fails, the \<open>catch\<close> of the function turns the failure into the
  result \<open>null\<close>; the loader has reset its promise and left \<open>modelsLoaded\<close> as it was,
  and any later call of \<open>loadModels\<close> starts a new load. In the server module (on a
  cache miss) the failure reaches the caller as it is, the promise is reset,
  \<open>modelsLoaded\<close> is false and the next call starts a new load.
\<close>

theorem load_failure_outcome:
  "(loadModels t s = (Pending p, s1) \<and> loadOutcome env = LoadFails e \<longrightarrow>
      extractFaceDescriptor env b t s = (Inr None, catch_handler s1)
      \<and> modelLoadingPromise (catch_handler s1) = None
      \<and> modelsLoaded (catch_handler s1) = modelsLoaded s
      \<and> (\<forall>t'. t \<le> t' \<longrightarrow> loadModels t' (catch_handler s1) =
           (Pending (loadsStarted s1),
            (catch_handler s1)\<lparr>modelLoadingPromise := Some (loadsStarted s1),
                                 loadsStarted := loadsStarted s1 + 1\<rparr>)))
   \<and> (\<not> map_has (take 50 (base64 b)) (descriptorCache z)
        \<and> loadModels_server z = (Pending p, z1) \<and> loadOutcome env = LoadFails e \<longrightarrow>
      extractFaceDescriptor_server env b z = (Inl e, server_failed z1)
      \<and> modelLoadingPromise (server_failed z1) = None
      \<and> modelsLoaded (server_failed z1) = modelsLoaded z
      \<and> (reachable_server z \<longrightarrow>
           \<not> modelsLoaded (server_failed z1)
           \<and> loadModels_server (server_failed z1) =
               (Pending (loadsStarted z1),
                (server_failed z1)\<lparr>modelLoadingPromise := Some (loadsStarted z1),
                                    loadsStarted := loadsStarted z1 + 1\<rparr>)))"
proof (rule conjI; rule impI; elim conjE)
  assume a: "loadModels t s = (Pending p, s1)" "loadOutcome env = LoadFails e"
  show "extractFaceDescriptor env b t s = (Inr None, catch_handler s1)
      \<and> modelLoadingPromise (catch_handler s1) = None
      \<and> modelsLoaded (catch_handler s1) = modelsLoaded s
      \<and> (\<forall>t'. t \<le> t' \<longrightarrow> loadModels t' (catch_handler s1) =
           (Pending (loadsStarted s1),
            (catch_handler s1)\<lparr>modelLoadingPromise := Some (loadsStarted s1),
                                 loadsStarted := loadsStarted s1 + 1\<rparr>))"
    using load_failure_utils(1) [OF a] load_failure_utils(2) [OF a]
      load_failure_utils(3) [OF a] load_failure_utils(4) [OF a]
    by blast
next
  assume a: "\<not> map_has (take 50 (base64 b)) (descriptorCache z)"
    "loadModels_server z = (Pending p, z1)" "loadOutcome env = LoadFails e"
  show "extractFaceDescriptor_server env b z = (Inl e, server_failed z1)
      \<and> modelLoadingPromise (server_failed z1) = None
      \<and> modelsLoaded (server_failed z1) = modelsLoaded z
      \<and> (reachable_server z \<longrightarrow>
           \<not> modelsLoaded (server_failed z1)
           \<and> loadModels_server (server_failed z1) =
               (Pending (loadsStarted z1),
                (server_failed z1)\<lparr>modelLoadingPromise := Some (loadsStarted z1),
                                    loadsStarted := loadsStarted z1 + 1\<rparr>))"
    using load_failure_server(1) [OF a] load_failure_server(2) [OF a]
      load_failure_server(3) [OF a] load_failure_server(4) [OF a]
    by blast
qed

theorem load_failure_outcome_witness:
  "loadModels 0 (initial_state :: int module_state) = (Pending 0, snd (loadModels 0 initial_state))
   \<and> loadOutcome env_load_fails = LoadFails (Error ''models'')
   \<and> extractFaceDescriptor env_load_fails [] 0 initial_state
       = (Inr None, catch_handler (snd (loadModels 0 initial_state)))
   \<and> modelLoadingPromise (catch_handler (snd (loadModels 0 (initial_state :: int module_state)))) = None
   \<and> loadModels_server (initial_state :: string module_state)
       = (Pending 0, snd (loadModels_server initial_state))
   \<and> extractFaceDescriptor_server env_load_fails [] initial_state
       = (Inl (Error ''models''), server_failed (snd (loadModels_server initial_state)))
   \<and> \<not> modelsLoaded (server_failed (snd (loadModels_server (initial_state :: string module_state))))"
proof -
  let ?s = "initial_state :: int module_state"
  let ?z = "initial_state :: string module_state"
  have a: "loadModels 0 ?s = (Pending 0, snd (loadModels 0 ?s))"
    by (simp add: loadModels_def initial_state_def)
  have e: "loadOutcome env_load_fails = LoadFails (Error ''models'')"
    by (simp add: env_load_fails_def)
  have c: "loadModels_server ?z = (Pending 0, snd (loadModels_server ?z))"
    by (simp add: loadModels_server_def initial_state_def)
  have m: "\<not> map_has (take 50 (base64 [])) (descriptorCache ?z)"
    by (simp add: map_has_def initial_state_def)
  have r: "reachable_server ?z" by (rule reachable_server.start)
  from load_failure_outcome [of 0 ?s 0 "snd (loadModels 0 ?s)" env_load_fails
      "Error ''models''" "[]" ?z "snd (loadModels_server ?z)"] a e c m r
  show ?thesis by blast
qed

text \<open>
  Claim C3 as stated fails on \<open>src/utils/db.js\<close>: from the initial state the call
  starts a load, the load fails, and the result is \<open>null\<close>, not the failure. And when
  models loaded at time \<open>0\<close> have gone stale (fifteen minutes later) and the reload
  fails, \<open>modelsLoaded\<close> is still true afterwards.
\<close>

theorem load_failure_counterexample:
  "fst (loadModels 0 (initial_state :: int module_state)) = Pending 0
   \<and> loadOutcome env_load_fails = LoadFails (Error ''models'')
   \<and> fst (extractFaceDescriptor env_load_fails [] 0 initial_state) = Inr None
   \<and> fst (loadModels 900000 (then_handler 0 (snd (loadModels 0 (initial_state :: int module_state)))))
       = Pending 1
   \<and> modelsLoaded (snd (extractFaceDescriptor env_load_fails [] 900000
         (then_handler 0 (snd (loadModels 0 initial_state)))))"
  by (simp add: eval_extract)

lemma touch_frame [simp]:
  "descriptorCache (touch k s) = descriptorCache s" "pipelineRuns (touch k s) = pipelineRuns s"
  "cacheAccessOrder (touch k s) = cacheAccessOrder s" "loadsStarted (touch k s) = loadsStarted s"
  by (simp_all add: touch_def)

lemma cache_insert_get:
  "map_get k (descriptorCache (cache_insert k d s)) = Some d"
  by (simp add: cache_insert_def Let_def map_get_set_same split: list.splits)

lemma cache_insert_server_get:
  assumes "\<not> map_has k (descriptorCache s)"
  shows "map_get k (descriptorCache (cache_insert_server k d s)) = Some d"
proof -
  let ?m = "map_set k d (descriptorCache s)"
  have m: "?m = descriptorCache s @ [(k, d)]" using assms by (rule map_set_new)
  have g: "map_get k ?m = Some d" by (rule map_get_set_same)
  show ?thesis
  proof (cases "100 < length ?m")
    case False
    then show ?thesis using g by (simp add: cache_insert_server_def Let_def)
  next
    case True
    then obtain k0 v0 rest where c: "descriptorCache s = (k0, v0) # rest"
      unfolding m by (cases "descriptorCache s") auto
    have ne: "k \<noteq> k0" using assms c by (auto simp: map_has_def)
    have "descriptorCache (cache_insert_server k d s) = map_delete k0 ?m"
      using True unfolding m c by (simp add: cache_insert_server_def Let_def m c)
    then show ?thesis using g ne by (simp add: map_get_delete_other)
  qed
qed

lemma extract_caches:
  assumes "extractFaceDescriptor env b t s = (Inr (Some d), s1)"
  shows "map_get (hashBuffer b) (descriptorCache s1) = Some d"
proof (cases "await_loadModels (loadOutcome env) t s")
  case (Pair r s0)
  show ?thesis
    using assms Pair
    by (auto simp: extractFaceDescriptor_def Let_def cache_insert_get
        split: option.splits sum.splits if_splits)
qed

lemma extract_server_caches:
  assumes "extractFaceDescriptor_server env b z = (Inr (Some d), z1)"
  shows "map_get (take 50 (base64 b)) (descriptorCache z1) = Some d"
proof (cases "map_has (take 50 (base64 b)) (descriptorCache z)")
  case True
  then show ?thesis using assms by (auto simp: extractFaceDescriptor_server_def Let_def)
next
  case False
  obtain r z0 where a: "await_loadModels_server (loadOutcome env) z = (r, z0)"
    by (cases "await_loadModels_server (loadOutcome env) z")
  have c: "descriptorCache z0 = descriptorCache z" using await_server_frame [OF a] by simp
  have "\<not> map_has (take 50 (base64 b)) (descriptorCache (z0\<lparr>pipelineRuns := pipelineRuns z0 + 1\<rparr>))"
    using False c by simp
  from cache_insert_server_get [OF this] show ?thesis
    using assms False a
    by (auto simp: extractFaceDescriptor_server_def Let_def split: option.splits sum.splits)
qed

lemma second_call_utils:
  assumes "extractFaceDescriptor env b t s = (Inr (Some d), s1)"
    and "fst (await_loadModels (loadOutcome env') t' s1) = None"
  shows "fst (extractFaceDescriptor env' b t' s1) = Inr (Some d)"
    and "pipelineRuns (snd (extractFaceDescriptor env' b t' s1)) = pipelineRuns s1"
proof -
  obtain s2 where a: "await_loadModels (loadOutcome env') t' s1 = (None, s2)"
    using assms(2) by (cases "await_loadModels (loadOutcome env') t' s1") auto
  note f = await_frame [OF a]
  have g: "map_get (hashBuffer b) (descriptorCache s2) = Some d"
    using extract_caches [OF assms(1)] f by simp
  then have h: "map_has (hashBuffer b) (descriptorCache s2)" by (simp add: map_has_get)
  show "fst (extractFaceDescriptor env' b t' s1) = Inr (Some d)"
    using a g h by (simp add: extractFaceDescriptor_def Let_def)
  show "pipelineRuns (snd (extractFaceDescriptor env' b t' s1)) = pipelineRuns s1"
    using a h f by (simp add: extractFaceDescriptor_def Let_def)
qed

lemma second_call_server:
  assumes "extractFaceDescriptor_server env b z = (Inr (Some d), z1)"
  shows "fst (extractFaceDescriptor_server env' b z1) = Inr (Some d)"
    and "pipelineRuns (snd (extractFaceDescriptor_server env' b z1)) = pipelineRuns z1"
    and "loadsStarted (snd (extractFaceDescriptor_server env' b z1)) = loadsStarted z1"
proof -
  have g: "map_get (take 50 (base64 b)) (descriptorCache z1) = Some d"
    by (rule extract_server_caches [OF assms])
  then have h: "map_has (take 50 (base64 b)) (descriptorCache z1)" by (simp add: map_has_get)
  show "fst (extractFaceDescriptor_server env' b z1) = Inr (Some d)"
    using g h by (simp add: extractFaceDescriptor_server_def Let_def)
  show "pipelineRuns (snd (extractFaceDescriptor_server env' b z1)) = pipelineRuns z1"
    using h by (simp add: extractFaceDescriptor_server_def Let_def)
  show "loadsStarted (snd (extractFaceDescriptor_server env' b z1)) = loadsStarted z1"
    using h by (simp add: extractFaceDescriptor_server_def Let_def)
qed

text \<open>
  Claim C5, as amended. If a call of \<open>extractFaceDescriptor\<close> returns a descriptor,
  then the next call with the same bytes returns the same descriptor from the cache and
  does not run the pipeline: in the server module always (and without touching the
  loader), in \<open>src/utils/db.js\<close> provided the \<open>await loadModels()\<close> that precedes the
  cache lookup does not fail. A \<open>null\<close> result is not cached.
\<close>

theorem second_call_served_from_cache:
  "(extractFaceDescriptor env b t s = (Inr (Some d), s1)
      \<and> fst (await_loadModels (loadOutcome env') t' s1) = None \<longrightarrow>
      fst (extractFaceDescriptor env' b t' s1) = Inr (Some d)
      \<and> pipelineRuns (snd (extractFaceDescriptor env' b t' s1)) = pipelineRuns s1)
   \<and> (extractFaceDescriptor_server env b z = (Inr (Some d), z1) \<longrightarrow>
      fst (extractFaceDescriptor_server env' b z1) = Inr (Some d)
      \<and> pipelineRuns (snd (extractFaceDescriptor_server env' b z1)) = pipelineRuns z1
      \<and> loadsStarted (snd (extractFaceDescriptor_server env' b z1)) = loadsStarted z1)"
proof (rule conjI; rule impI; (elim conjE)?)
  assume a: "extractFaceDescriptor env b t s = (Inr (Some d), s1)"
    "fst (await_loadModels (loadOutcome env') t' s1) = None"
  show "fst (extractFaceDescriptor env' b t' s1) = Inr (Some d)
      \<and> pipelineRuns (snd (extractFaceDescriptor env' b t' s1)) = pipelineRuns s1"
    using second_call_utils(1) [OF a] second_call_utils(2) [OF a] by blast
next
  assume a: "extractFaceDescriptor_server env b z = (Inr (Some d), z1)"
  show "fst (extractFaceDescriptor_server env' b z1) = Inr (Some d)
      \<and> pipelineRuns (snd (extractFaceDescriptor_server env' b z1)) = pipelineRuns z1
      \<and> loadsStarted (snd (extractFaceDescriptor_server env' b z1)) = loadsStarted z1"
    using second_call_server(1) [OF a] second_call_server(2) [OF a] second_call_server(3) [OF a]
    by blast
qed

lemma ex5_first:
  "fst (extractFaceDescriptor env_face [] 0 initial_state) = Inr (Some [1, 2])"
  "fst (extractFaceDescriptor_server env_face [] initial_state) = Inr (Some [1, 2])"
  "pipelineRuns (snd (extractFaceDescriptor env_face [] 0 initial_state)) = 1"
  "pipelineRuns (snd (extractFaceDescriptor_server env_face [] initial_state)) = 1"
  by (simp_all add: eval_extract)

theorem second_call_served_from_cache_witness:
  "fst (extractFaceDescriptor env_face [] 0 initial_state) = Inr (Some [1, 2])
   \<and> fst (extractFaceDescriptor env_decode_throws [] 1
            (snd (extractFaceDescriptor env_face [] 0 initial_state))) = Inr (Some [1, 2])
   \<and> pipelineRuns (snd (extractFaceDescriptor env_decode_throws [] 1
            (snd (extractFaceDescriptor env_face [] 0 initial_state)))) = 1
   \<and> fst (extractFaceDescriptor_server env_face [] initial_state) = Inr (Some [1, 2])
   \<and> fst (extractFaceDescriptor_server env_load_fails []
            (snd (extractFaceDescriptor_server env_face [] initial_state))) = Inr (Some [1, 2])
   \<and> pipelineRuns (snd (extractFaceDescriptor_server env_load_fails []
            (snd (extractFaceDescriptor_server env_face [] initial_state)))) = 1"
proof -
  let ?s1 = "snd (extractFaceDescriptor env_face [] 0 initial_state)"
  let ?z1 = "snd (extractFaceDescriptor_server env_face [] initial_state)"
  have a: "extractFaceDescriptor env_face [] 0 initial_state = (Inr (Some [1, 2]), ?s1)"
    using ex5_first(1) by (simp add: prod_eq_iff)
  have l: "fst (await_loadModels (loadOutcome env_decode_throws) 1 ?s1) = None"
    by (simp add: eval_extract)
  have c: "extractFaceDescriptor_server env_face [] initial_state = (Inr (Some [1, 2]), ?z1)"
    using ex5_first(2) by (simp add: prod_eq_iff)
  note w = second_call_served_from_cache [where env = env_face and b = "[]" and t = 0
      and s = initial_state and d = "[1, 2]" and ?s1.0 = ?s1 and env' = env_decode_throws
      and t' = 1 and z = initial_state and ?z1.0 = ?z1]
  note w' = second_call_served_from_cache [where env = env_face and b = "[]" and t = 0
      and s = initial_state and d = "[1, 2]" and ?s1.0 = ?s1 and env' = env_load_fails
      and t' = 1 and z = initial_state and ?z1.0 = ?z1]
  from w a l have u: "fst (extractFaceDescriptor env_decode_throws [] 1 ?s1) = Inr (Some [1, 2])"
    "pipelineRuns (snd (extractFaceDescriptor env_decode_throws [] 1 ?s1)) = pipelineRuns ?s1"
    by blast+
  from w' c have v: "fst (extractFaceDescriptor_server env_load_fails [] ?z1) = Inr (Some [1, 2])"
    "pipelineRuns (snd (extractFaceDescriptor_server env_load_fails [] ?z1)) = pipelineRuns ?z1"
    by blast+
  show ?thesis using u v ex5_first by simp
qed

text \<open>
  Claim C5 as stated fails on \<open>src/utils/db.js\<close>. For an image without a face nothing
  is cached: two calls with the same bytes both return \<open>null\<close> and run the pipeline
  twice. And for an image with a face, cached at time \<open>0\<close>, a second call fifteen
  minutes later whose reload of the stale models fails returns \<open>null\<close>, not the cached
  descriptor.
\<close>

theorem second_call_counterexample:
  "fst (extractFaceDescriptor env_no_face [] 0 initial_state) = Inr None
   \<and> fst (extractFaceDescriptor env_no_face [] 1
            (snd (extractFaceDescriptor env_no_face [] 0 initial_state))) = Inr None
   \<and> pipelineRuns (snd (extractFaceDescriptor env_no_face [] 1
            (snd (extractFaceDescriptor env_no_face [] 0 initial_state)))) = 2
   \<and> fst (extractFaceDescriptor env_face [] 0 initial_state) = Inr (Some [1, 2])
   \<and> fst (extractFaceDescriptor env_load_fails [] 900000
            (snd (extractFaceDescriptor env_face [] 0 initial_state))) = Inr None"
  by (simp add: eval_extract)

section \<open>The descriptor cache\<close>

lemma keys_map_delete: "map fst (map_delete k m) = removeAll k (map fst m)"
  by (induction m) (auto simp: map_delete_def)

lemma keys_map_set_new: "k \<notin> set (map fst m) \<Longrightarrow> map fst (map_set k v m) = map fst m @ [k]"
  by (simp add: map_set_new map_has_def)

lemma cache_ok_frame:
  assumes "cache_ok s" "descriptorCache s' = descriptorCache s"
    "cacheAccessOrder s' = cacheAccessOrder s" "tick s' = tick s" "lastUse s' = lastUse s"
  shows "cache_ok s'"
  using assms by (simp add: cache_ok_def cache_keys_def)

lemma sorted_wrt_cong_set:
  "(\<And>x y. x \<in> set xs \<Longrightarrow> y \<in> set xs \<Longrightarrow> P x y = Q x y) \<Longrightarrow> sorted_wrt P xs = sorted_wrt Q xs"
  by (induction xs) auto

lemma use_key_order:
  fixes f :: "'k \<Rightarrow> nat"
  assumes d: "distinct xs" and so: "sorted_wrt (\<lambda>a b. f a < f b) xs"
    and lt: "list_all (\<lambda>k. f k < n) xs"
  shows "distinct (remove1 k xs @ [k])"
    and "sorted_wrt (\<lambda>a b. (f(k := n)) a < (f(k := n)) b) (remove1 k xs @ [k])"
    and "list_all (\<lambda>k'. (f(k := n)) k' < n + 1) (remove1 k xs @ [k])"
proof -
  let ?ys = "remove1 k xs"
  have nk: "k \<notin> set ?ys" using d by simp
  have sub: "set ?ys \<subseteq> set xs" by (rule set_remove1_subset)
  show "distinct (?ys @ [k])" using d nk by simp
  have s1: "sorted_wrt (\<lambda>a b. f a < f b) ?ys"
    using so d by (simp add: distinct_remove1_removeAll removeAll_filter_not_eq sorted_wrt_filter)
  have s2: "sorted_wrt (\<lambda>a b. (f(k := n)) a < (f(k := n)) b) ?ys"
    using s1 nk by (subst sorted_wrt_cong_set [where Q = "\<lambda>a b. f a < f b"]) auto
  have lt': "\<forall>x\<in>set ?ys. f x < n" using lt sub by (auto simp: list_all_iff)
  show "sorted_wrt (\<lambda>a b. (f(k := n)) a < (f(k := n)) b) (?ys @ [k])"
    using s2 lt' nk by (auto simp: sorted_wrt_append)
  show "list_all (\<lambda>k'. (f(k := n)) k' < n + 1) (?ys @ [k])"
    using lt' by (auto simp: list_all_iff)
qed

lemma cache_ok_hit:
  assumes "cache_ok s" "map_has k (descriptorCache s)"
  shows "cache_ok (touch k (s\<lparr>cacheAccessOrder := updateCacheAccess k (cacheAccessOrder s)\<rparr>))"
proof -
  have k: "k \<in> set (cacheAccessOrder s)"
    using assms by (simp add: cache_ok_def cache_keys_def map_has_def)
  have d: "distinct (cacheAccessOrder s)"
    and so: "sorted_wrt (\<lambda>a b. lastUse s a < lastUse s b) (cacheAccessOrder s)"
    and lt: "list_all (\<lambda>k. lastUse s k < tick s) (cacheAccessOrder s)"
    using assms(1) by (simp_all add: cache_ok_def)
  note u = use_key_order [OF d so lt, of k]
  have st: "set (remove1 k (cacheAccessOrder s) @ [k]) = set (cacheAccessOrder s)"
    using k d by auto
  show ?thesis
    using assms(1) u st
    by (simp add: cache_ok_def cache_keys_def touch_def updateCacheAccess_def)
qed

lemma cache_ok_insert:
  assumes ok: "cache_ok s" and miss: "\<not> map_has k (descriptorCache s)"
  shows "cache_ok (cache_insert k d s)"
proof -
  let ?evict = "CACHE_SIZE_LIMIT \<le> length (descriptorCache s)"
  define s1 where "s1 = (if ?evict
       then (case cacheAccessOrder s of [] \<Rightarrow> s
             | oldestKey # rest \<Rightarrow>
                 s\<lparr>cacheAccessOrder := rest,
                   descriptorCache := map_delete oldestKey (descriptorCache s)\<rparr>)
       else s)"
  have dk: "distinct (cache_keys s)" and d: "distinct (cacheAccessOrder s)"
    and se: "set (cacheAccessOrder s) = set (cache_keys s)"
    and le: "length (descriptorCache s) \<le> CACHE_SIZE_LIMIT"
    and so: "sorted_wrt (\<lambda>a b. lastUse s a < lastUse s b) (cacheAccessOrder s)"
    and lt: "list_all (\<lambda>k. lastUse s k < tick s) (cacheAccessOrder s)"
    using ok by (simp_all add: cache_ok_def)
  have nk: "k \<notin> set (cache_keys s)" using miss by (simp add: map_has_def cache_keys_def)
  have s1: "distinct (cache_keys s1) \<and> distinct (cacheAccessOrder s1)
      \<and> set (cacheAccessOrder s1) = set (cache_keys s1)
      \<and> length (descriptorCache s1) < CACHE_SIZE_LIMIT
      \<and> sorted_wrt (\<lambda>a b. lastUse s a < lastUse s b) (cacheAccessOrder s1)
      \<and> list_all (\<lambda>k. lastUse s k < tick s) (cacheAccessOrder s1)
      \<and> k \<notin> set (cache_keys s1) \<and> tick s1 = tick s \<and> lastUse s1 = lastUse s"
  proof (cases ?evict)
    case False
    then show ?thesis using dk d se so lt nk by (simp add: s1_def)
  next
    case True
    then have "cache_keys s \<noteq> []" by (auto simp: cache_keys_def CACHE_SIZE_LIMIT_def)
    then have "cacheAccessOrder s \<noteq> []" using se by auto
    then obtain oldestKey rest where o: "cacheAccessOrder s = oldestKey # rest"
      by (cases "cacheAccessOrder s") auto
    have e: "s1 = s\<lparr>cacheAccessOrder := rest,
                   descriptorCache := map_delete oldestKey (descriptorCache s)\<rparr>"
      using True o by (simp add: s1_def)
    have in_keys: "oldestKey \<in> set (cache_keys s)" using se o by auto
    have keys1: "cache_keys s1 = removeAll oldestKey (cache_keys s)"
      by (simp add: e cache_keys_def keys_map_delete)
    have len1: "length (cache_keys s1) = length (cache_keys s) - 1"
      using dk in_keys unfolding keys1
      by (simp add: distinct_remove1_removeAll [symmetric] length_remove1)
    have "length (descriptorCache s1) < CACHE_SIZE_LIMIT"
      using len1 le in_keys by (cases "cache_keys s") (auto simp: cache_keys_def)
    moreover have "set rest = set (cache_keys s1)"
      using se d o unfolding keys1 by auto
    moreover have "distinct (cache_keys s1)" using dk unfolding keys1 by (simp add: distinct_removeAll)
    moreover have "k \<notin> set (cache_keys s1)" using nk unfolding keys1 by simp
    ultimately show ?thesis using d so lt o by (simp add: e)
  qed
  have nk1: "k \<notin> set (cacheAccessOrder s1)" using s1 by simp
  then have r1: "remove1 k (cacheAccessOrder s1) = cacheAccessOrder s1"
    by (simp add: remove1_idem)
  have so1: "sorted_wrt (\<lambda>a b. lastUse s1 a < lastUse s1 b) (cacheAccessOrder s1)"
    and lt1: "list_all (\<lambda>k. lastUse s1 k < tick s1) (cacheAccessOrder s1)"
    and d1: "distinct (cacheAccessOrder s1)"
    using s1 by simp_all
  note u = use_key_order [OF d1 so1 lt1, of k, unfolded r1]
  have keys2: "map fst (map_set k d (descriptorCache s1)) = cache_keys s1 @ [k]"
    using s1 by (simp add: keys_map_set_new cache_keys_def)
  have ins: "cache_insert k d s =
      touch k (s1\<lparr>descriptorCache := map_set k d (descriptorCache s1),
                  cacheAccessOrder := updateCacheAccess k (cacheAccessOrder s1)\<rparr>)"
    by (simp add: cache_insert_def s1_def Let_def)
  have "length (map fst (map_set k d (descriptorCache s1))) = Suc (length (descriptorCache s1))"
    unfolding keys2 by (simp add: cache_keys_def)
  then have len2: "length (map_set k d (descriptorCache s1)) \<le> CACHE_SIZE_LIMIT"
    using s1 by simp
  let ?s2 = "touch k (s1\<lparr>descriptorCache := map_set k d (descriptorCache s1),
                  cacheAccessOrder := updateCacheAccess k (cacheAccessOrder s1)\<rparr>)"
  have f2: "cache_keys ?s2 = cache_keys s1 @ [k]" "cacheAccessOrder ?s2 = cacheAccessOrder s1 @ [k]"
    "descriptorCache ?s2 = map_set k d (descriptorCache s1)"
    "lastUse ?s2 = (lastUse s1)(k := tick s1)" "tick ?s2 = tick s1 + 1"
    using keys2 by (simp_all add: cache_keys_def touch_def updateCacheAccess_def r1)
  have "distinct (cache_keys ?s2)" unfolding f2 using s1 by simp
  moreover have "distinct (cacheAccessOrder ?s2)" unfolding f2 using u(1) .
  moreover have "set (cacheAccessOrder ?s2) = set (cache_keys ?s2)" unfolding f2 using s1 by simp
  moreover have "length (descriptorCache ?s2) \<le> CACHE_SIZE_LIMIT" unfolding f2 using len2 .
  moreover have "sorted_wrt (\<lambda>a b. lastUse ?s2 a < lastUse ?s2 b) (cacheAccessOrder ?s2)"
    unfolding f2 using u(2) .
  moreover have "list_all (\<lambda>k. lastUse ?s2 k < tick ?s2) (cacheAccessOrder ?s2)"
    unfolding f2 using u(3) .
  ultimately show ?thesis unfolding ins cache_ok_def by blast
qed

lemma extract_state_cases:
  assumes a: "await_loadModels (loadOutcome env) t s = (r, s1)"
  shows "snd (extractFaceDescriptor env b t s) =
     (case r of
        Some e \<Rightarrow> s1
      | None \<Rightarrow>
          if map_has (hashBuffer b) (descriptorCache s1)
          then touch (hashBuffer b)
                 (s1\<lparr>cacheAccessOrder := updateCacheAccess (hashBuffer b) (cacheAccessOrder s1)\<rparr>)
          else (case run_pipeline env b of
                  Inr (Some d) \<Rightarrow>
                    cache_insert (hashBuffer b) d (s1\<lparr>pipelineRuns := pipelineRuns s1 + 1\<rparr>)
                | _ \<Rightarrow> s1\<lparr>pipelineRuns := pipelineRuns s1 + 1\<rparr>))"
  unfolding extractFaceDescriptor_def a
  by (simp add: Let_def split: option.splits sum.splits)

lemma cache_ok_extract:
  assumes "cache_ok s"
  shows "cache_ok (snd (extractFaceDescriptor env b t s))"
proof -
  obtain r s1 where a: "await_loadModels (loadOutcome env) t s = (r, s1)"
    by (cases "await_loadModels (loadOutcome env) t s")
  note f = await_frame [OF a]
  have ok1: "cache_ok s1" by (rule cache_ok_frame [OF assms]) (simp_all add: f)
  let ?s2 = "s1\<lparr>pipelineRuns := pipelineRuns s1 + 1\<rparr>"
  have ok2: "cache_ok ?s2" by (rule cache_ok_frame [OF ok1]) simp_all
  note e = extract_state_cases [OF a, of b]
  show ?thesis
  proof (cases r)
    case (Some err)
    then show ?thesis using ok1 by (simp add: e)
  next
    case None
    show ?thesis
    proof (cases "map_has (hashBuffer b) (descriptorCache s1)")
      case True
      then show ?thesis using None cache_ok_hit [OF ok1 True] by (simp add: e)
    next
      case False
      then have m: "\<not> map_has (hashBuffer b) (descriptorCache ?s2)" by simp
      show ?thesis
      proof (cases "run_pipeline env b")
        case (Inl x)
        then show ?thesis using None False ok2 by (simp add: e)
      next
        case (Inr y)
        show ?thesis
        proof (cases y)
          case None': None
          then show ?thesis using None False ok2 Inr by (simp add: e)
        next
          case (Some d)
          then show ?thesis using None False Inr cache_ok_insert [OF ok2 m, of d] by (simp add: e)
        qed
      qed
    qed
  qed
qed

lemma cache_ok_initial: "cache_ok initial_state"
  by (simp add: cache_ok_def cache_keys_def initial_state_def)

lemma cache_ok_extract_all: "cache_ok s \<Longrightarrow> cache_ok (extract_all calls s)"
proof (induction calls arbitrary: s)
  case Nil
  then show ?case by simp
next
  case (Cons c calls)
  obtain env b t where c: "c = (env, b, t)" by (cases c)
  show ?case unfolding c using Cons.IH [OF cache_ok_extract [OF Cons.prems, of env b t]] by simp
qed

lemma lru_eviction:
  assumes ok: "cache_ok s" and full: "length (descriptorCache s) = CACHE_SIZE_LIMIT"
    and miss: "\<not> map_has k (descriptorCache s)"
  shows "\<exists>victim. victim \<in> set (cache_keys s)
           \<and> list_all (\<lambda>k'. k' = victim \<or> lastUse s victim < lastUse s k') (cache_keys s)
           \<and> set (cache_keys (cache_insert k d s)) = insert k (set (cache_keys s) - {victim})"
proof -
  have dk: "distinct (cache_keys s)" and d: "distinct (cacheAccessOrder s)"
    and se: "set (cacheAccessOrder s) = set (cache_keys s)"
    and so: "sorted_wrt (\<lambda>a b. lastUse s a < lastUse s b) (cacheAccessOrder s)"
    using ok by (simp_all add: cache_ok_def)
  have "cache_keys s \<noteq> []" using full by (auto simp: cache_keys_def CACHE_SIZE_LIMIT_def)
  then have "cacheAccessOrder s \<noteq> []" using se by auto
  then obtain victim rest where o: "cacheAccessOrder s = victim # rest"
    by (cases "cacheAccessOrder s") auto
  have v: "victim \<in> set (cache_keys s)" using se o by auto
  have older: "\<forall>k'\<in>set rest. lastUse s victim < lastUse s k'" using so o by simp
  have "\<forall>k'\<in>set (cache_keys s). k' = victim \<or> lastUse s victim < lastUse s k'"
    using older se o by auto
  then have l: "list_all (\<lambda>k'. k' = victim \<or> lastUse s victim < lastUse s k') (cache_keys s)"
    by (simp add: list_all_iff)
  have nk: "k \<notin> set (removeAll victim (cache_keys s))"
    using miss by (simp add: map_has_def cache_keys_def)
  have "cache_keys (cache_insert k d s) = removeAll victim (cache_keys s) @ [k]"
    using full o nk
    by (simp add: cache_insert_def Let_def cache_keys_def touch_def keys_map_delete
        keys_map_set_new)
  then have "set (cache_keys (cache_insert k d s)) = insert k (set (cache_keys s) - {victim})"
    by auto
  with v l show ?thesis by blast
qed

lemma length_map_set: "length (map_set k v m) \<le> Suc (length m)"
  by (induction m) auto

lemma server_insert_bound:
  "length (descriptorCache z) \<le> 100 \<Longrightarrow> length (descriptorCache (cache_insert_server k d z)) \<le> 100"
proof -
  assume le: "length (descriptorCache z) \<le> 100"
  let ?m = "map_set k d (descriptorCache z)"
  have lm: "length ?m \<le> Suc (length (descriptorCache z))"
    by (rule length_map_set)
  show ?thesis
  proof (cases "100 < length ?m")
    case False
    then show ?thesis by (simp add: cache_insert_server_def Let_def touch_def)
  next
    case True
    then obtain k0 v0 rest where m: "?m = (k0, v0) # rest" by (cases ?m) auto
    have "length (map_delete k0 ?m) \<le> length rest"
      unfolding m by (simp add: map_delete_def)
    then show ?thesis using True le lm m
      by (simp add: cache_insert_server_def Let_def touch_def)
  qed
qed


lemma server_fifo:
  assumes dk: "distinct (cache_keys z)" and full: "length (descriptorCache z) = 100"
    and miss: "\<not> map_has k (descriptorCache z)"
  shows "cache_keys (cache_insert_server k d z) = tl (cache_keys z) @ [k]"
proof -
  obtain k0 v0 rest where c: "descriptorCache z = (k0, v0) # rest"
    using full by (cases "descriptorCache z") auto
  have m: "map_set k d (descriptorCache z) = descriptorCache z @ [(k, d)]"
    using miss by (rule map_set_new)
  have ne: "k \<noteq> k0" using miss c by (auto simp: map_has_def)
  have nr: "k0 \<notin> set (map fst rest)" using dk c by (simp add: cache_keys_def)
  then have ra: "removeAll k0 (map fst rest) = map fst rest" by simp
  let ?M = "(k0, v0) # rest @ [(k, d)]"
  have M: "map_set k d (descriptorCache z) = ?M" using m by (simp only: c append_Cons)
  have lM: "100 < length ?M" using full c by simp
  have "descriptorCache (cache_insert_server k d z) = map_delete k0 ?M"
    unfolding cache_insert_server_def Let_def M using lM by (simp add: touch_def)
  then have "cache_keys (cache_insert_server k d z) = removeAll k0 (map fst ?M)"
    by (simp add: cache_keys_def keys_map_delete)
  also have "\<dots> = map fst rest @ [k]" using ne ra by simp
  finally show ?thesis by (simp add: cache_keys_def c)
qed

lemma extract_server_state_cases:
  assumes a: "await_loadModels_server (loadOutcome env) z = (r, z1)"
  shows "snd (extractFaceDescriptor_server env b z) =
     (if map_has (take 50 (base64 b)) (descriptorCache z) then touch (take 50 (base64 b)) z
      else (case r of
              Some e \<Rightarrow> z1
            | None \<Rightarrow>
                (case run_pipeline env b of
                   Inr (Some d) \<Rightarrow>
                     cache_insert_server (take 50 (base64 b)) d
                       (z1\<lparr>pipelineRuns := pipelineRuns z1 + 1\<rparr>)
                 | _ \<Rightarrow> z1\<lparr>pipelineRuns := pipelineRuns z1 + 1\<rparr>)))"
  unfolding extractFaceDescriptor_server_def a
  by (simp add: Let_def split: option.splits sum.splits)

lemma server_extract_bound:
  assumes "length (descriptorCache z) \<le> 100"
  shows "length (descriptorCache (snd (extractFaceDescriptor_server env b z))) \<le> 100"
proof -
  obtain r z1 where a: "await_loadModels_server (loadOutcome env) z = (r, z1)"
    by (cases "await_loadModels_server (loadOutcome env) z")
  note f = await_server_frame [OF a]
  let ?z2 = "z1\<lparr>pipelineRuns := pipelineRuns z1 + 1\<rparr>"
  have le2: "length (descriptorCache ?z2) \<le> 100" using assms f by simp
  note i = server_insert_bound [OF le2]
  show ?thesis
    using assms f i
    by (auto simp: extract_server_state_cases [OF a] touch_def split: option.splits sum.splits)
qed

lemma server_extract_all_bound:
  "length (descriptorCache z) \<le> 100 \<Longrightarrow>
     length (descriptorCache (extract_all_server calls z)) \<le> 100"
proof (induction calls arbitrary: z)
  case Nil
  then show ?case by simp
next
  case (Cons c calls)
  obtain env b where c: "c = (env, b)" by (cases c)
  show ?case unfolding c
    using Cons.IH [OF server_extract_bound [OF Cons.prems, of env b]] by simp
qed

lemma base64_char_inj:
  assumes "i < 64" "j < 64" "base64_char i = base64_char j"
  shows "i = j"
proof -
  let ?a = "''ABCDEFGHIJKLMNOPQRSTUVWXYZabcdefghijklmnopqrstuvwxyz0123456789+/''"
  have d: "distinct ?a" by simp
  have l: "length ?a = 64" by simp
  show ?thesis
    using assms nth_eq_iff_index_eq [OF d, of i j] l by (simp add: base64_char_def)
qed

lemma filler_key_eq:
  "i < 256 \<Longrightarrow> filler_key i = [base64_char (i div 4), base64_char ((i mod 4) * 16), CHR ''='', CHR ''='']"
  by (simp add: filler_key_def unat_of_nat take_bit_nat_eq_self)

lemma filler_key_inj:
  assumes "i < 256" "j < 256" "filler_key i = filler_key j"
  shows "i = j"
proof -
  have e: "base64_char (i div 4) = base64_char (j div 4)"
    "base64_char ((i mod 4) * 16) = base64_char ((j mod 4) * 16)"
    using assms by (simp_all add: filler_key_eq)
  have "i div 4 = j div 4"
    using assms(1,2) by (intro base64_char_inj [OF _ _ e(1)]) auto
  moreover have "(i mod 4) * 16 = (j mod 4) * 16"
    by (intro base64_char_inj [OF _ _ e(2)]) (simp_all add: less_le_trans [OF mod_less_divisor])
  ultimately show ?thesis by (metis div_mult_mod_eq mult_cancel2 zero_neq_numeral)
qed


lemma extract_all_server_append:
  "extract_all_server (xs @ ys) s = extract_all_server ys (extract_all_server xs s)"
  by (induction xs arbitrary: s) auto

lemma await_env_face:
  "\<exists>z1. await_loadModels_server (loadOutcome env_face) z = (None, z1)"
  by (simp add: await_loadModels_server_def env_face_def split: prod.splits load_return.splits)

lemma insert_face_server:
  assumes miss: "\<not> map_has (take 50 (base64 b)) (descriptorCache z)"
  shows "\<exists>z2. snd (extractFaceDescriptor_server env_face b z)
            = cache_insert_server (take 50 (base64 b)) [1, 2] z2
          \<and> descriptorCache z2 = descriptorCache z \<and> tick z2 = tick z \<and> lastUse z2 = lastUse z"
proof -
  obtain z1 where a: "await_loadModels_server (loadOutcome env_face) z = (None, z1)"
    using await_env_face by blast
  note f = await_server_frame [OF a]
  have p: "run_pipeline env_face b = Inr (Some [1, 2])"
    by (simp add: run_pipeline_def env_face_def)
  let ?z2 = "z1\<lparr>pipelineRuns := pipelineRuns z1 + 1\<rparr>"
  have "snd (extractFaceDescriptor_server env_face b z)
          = cache_insert_server (take 50 (base64 b)) [1, 2] ?z2"
    using miss p by (simp add: extract_server_state_cases [OF a])
  moreover have "descriptorCache ?z2 = descriptorCache z \<and> tick ?z2 = tick z \<and> lastUse ?z2 = lastUse z"
    using f by simp
  ultimately show ?thesis by blast
qed

lemma insert_server_below_capacity:
  assumes "\<not> map_has k (descriptorCache z)" "length (descriptorCache z) < 100"
  shows "cache_keys (cache_insert_server k d z) = cache_keys z @ [k]"
    and "lastUse (cache_insert_server k d z) = (lastUse z)(k := tick z)"
    and "tick (cache_insert_server k d z) = tick z + 1"
  using assms
  by (simp_all add: cache_insert_server_def Let_def map_set_new cache_keys_def touch_def)

lemma fill_state_Suc:
  "fill_state (Suc n) = snd (extractFaceDescriptor_server env_face [of_nat n] (fill_state n))"
  by (simp add: fill_state_def extract_all_server_append)

lemma fill_state_props:
  "n \<le> 100 \<Longrightarrow>
     cache_keys (fill_state n) = map filler_key [0..<n]
     \<and> (\<forall>i<n. lastUse (fill_state n) (filler_key i) = i)
     \<and> tick (fill_state n) = n"
proof (induction n)
  case 0
  show ?case by (simp add: fill_state_def initial_state_def cache_keys_def)
next
  case (Suc n)
  then have n: "n < 100" and ih: "cache_keys (fill_state n) = map filler_key [0..<n]"
    "\<forall>i<n. lastUse (fill_state n) (filler_key i) = i" "tick (fill_state n) = n"
    by simp_all
  have new: "\<forall>i<n. filler_key i \<noteq> filler_key n"
  proof (intro allI impI notI)
    fix i assume i: "i < n" and e: "filler_key i = filler_key n"
    have "i = n" using filler_key_inj [OF _ _ e] i n by simp
    then show False using i by simp
  qed
  have miss0: "filler_key n \<notin> set (cache_keys (fill_state n))"
    unfolding ih(1) using new by auto
  then have miss: "\<not> map_has (take 50 (base64 [of_nat n])) (descriptorCache (fill_state n))"
    by (simp add: map_has_def cache_keys_def filler_key_def)
  from insert_face_server [OF miss] obtain z2 where
    z2: "fill_state (Suc n) = cache_insert_server (filler_key n) [1, 2] z2"
      "descriptorCache z2 = descriptorCache (fill_state n)" "tick z2 = tick (fill_state n)"
      "lastUse z2 = lastUse (fill_state n)"
    unfolding fill_state_Suc filler_key_def by blast
  have m2: "\<not> map_has (filler_key n) (descriptorCache z2)"
    using miss z2(2) by (simp add: filler_key_def)
  have l2: "length (descriptorCache z2) < 100"
  proof -
    have "length (cache_keys (fill_state n)) = n" unfolding ih(1) by simp
    then show ?thesis using n z2(2) by (simp add: cache_keys_def)
  qed
  note p = insert_server_below_capacity [OF m2 l2, of "[1, 2]"]
  have k2: "cache_keys z2 = cache_keys (fill_state n)" using z2(2) by (simp add: cache_keys_def)
  show ?case
    unfolding z2(1) using p k2 ih z2(3,4) new by (auto simp: less_Suc_eq)
qed

lemma server_distinct_extract:
  assumes "distinct (cache_keys z)"
  shows "distinct (cache_keys (snd (extractFaceDescriptor_server env b z)))"
proof -
  obtain r z1 where a: "await_loadModels_server (loadOutcome env) z = (r, z1)"
    by (cases "await_loadModels_server (loadOutcome env) z")
  note f = await_server_frame [OF a]
  let ?k = "take 50 (base64 b)"
  let ?z2 = "z1\<lparr>pipelineRuns := pipelineRuns z1 + 1\<rparr>"
  have ins: "distinct (cache_keys (cache_insert_server ?k d ?z2))"
    if miss: "\<not> map_has ?k (descriptorCache z)" for d
  proof -
    have m: "map_set ?k d (descriptorCache ?z2) = descriptorCache z @ [(?k, d)]"
      using miss f by (simp add: map_set_new)
    have dm: "distinct (map fst (descriptorCache z @ [(?k, d)]))"
      using assms miss by (simp add: cache_keys_def map_has_def)
    have dd: "distinct (map fst (map_delete k0 (descriptorCache z @ [(?k, d)])))" for k0
      using dm unfolding keys_map_delete by (rule distinct_removeAll)
    let ?M = "descriptorCache z @ [(?k, d)]"
    have "descriptorCache (cache_insert_server ?k d ?z2) = ?M
        \<or> (\<exists>k0. descriptorCache (cache_insert_server ?k d ?z2) = map_delete k0 ?M)"
      unfolding cache_insert_server_def Let_def m
      by (cases ?M) (auto simp: touch_def)
    then show ?thesis using dm dd by (auto simp: cache_keys_def)
  qed
  show ?thesis
    using assms f ins
    by (auto simp: extract_server_state_cases [OF a] touch_def cache_keys_def
        split: option.splits sum.splits)
qed

lemma server_distinct_extract_all:
  "distinct (cache_keys z) \<Longrightarrow> distinct (cache_keys (extract_all_server calls z))"
proof (induction calls arbitrary: z)
  case Nil
  then show ?case by simp
next
  case (Cons c calls)
  obtain env b where c: "c = (env, b)" by (cases c)
  show ?case unfolding c
    using Cons.IH [OF server_distinct_extract [OF Cons.prems, of env b]] by simp
qed

lemma server_full_eq: "server_full = fill_state 100"
  by (simp add: server_full_def fill_state_def filler_calls_def)

lemma server_full_props:
  "cache_keys server_full = map filler_key [0..<100]"
  "\<forall>i<100. lastUse server_full (filler_key i) = i"
  "tick server_full = 100"
  "length (descriptorCache server_full) = 100"
proof -
  note p = fill_state_props [of 100, folded server_full_eq]
  show "cache_keys server_full = map filler_key [0..<100]" using p by simp
  then have "length (cache_keys server_full) = 100" by simp
  then show "length (descriptorCache server_full) = 100" by (simp add: cache_keys_def)
  show "\<forall>i<100. lastUse server_full (filler_key i) = i" using p by simp
  show "tick server_full = 100" using p by simp
qed

lemma filler_key_inj_on: "inj_on filler_key {..<256}"
proof (rule inj_onI)
  fix x y assume "x \<in> {..<256}" "y \<in> {..<256}" and e: "filler_key x = filler_key y"
  then show "x = y" using filler_key_inj [OF _ _ e] by simp
qed

lemma filler_key_mem:
  assumes "i < 256" "b \<le> 256"
  shows "(filler_key i \<in> set (map filler_key [a..<b])) = (a \<le> i \<and> i < b)"
proof
  assume "filler_key i \<in> set (map filler_key [a..<b])"
  then have "filler_key i \<in> filler_key ` {a..<b}" by simp
  then obtain x where x: "x \<in> {a..<b}" "filler_key i = filler_key x" by (rule imageE)
  have xb: "x < 256" using x(1) assms(2) by simp
  have "i = x" by (rule filler_key_inj [OF assms(1) xb x(2)])
  then show "a \<le> i \<and> i < b" using x(1) by simp
next
  assume "a \<le> i \<and> i < b"
  then have "i \<in> {a..<b}" by simp
  then have "filler_key i \<in> filler_key ` {a..<b}" by (rule imageI)
  then show "filler_key i \<in> set (map filler_key [a..<b])" by simp
qed

lemma filler_key_neq: "i < 256 \<Longrightarrow> j < 256 \<Longrightarrow> i \<noteq> j \<Longrightarrow> filler_key i \<noteq> filler_key j"
  using filler_key_inj by blast

lemma server_after_read_eq: "server_after_read = touch (filler_key 0) server_full"
proof -
  have h: "map_has (filler_key 0) (descriptorCache server_full)"
    using server_full_props(1) by (simp add: map_has_def cache_keys_def)
  obtain r z1 where a: "await_loadModels_server (loadOutcome env_face) server_full = (r, z1)"
    by (cases "await_loadModels_server (loadOutcome env_face) server_full")
  show ?thesis
    using h by (simp add: server_after_read_def extract_server_state_cases [OF a] filler_key_def)
qed

lemma server_after_insert_keys:
  "cache_keys server_after_insert = map filler_key [1..<100] @ [filler_key 100]"
proof -
  have keys: "cache_keys server_after_read = map filler_key [0..<100]"
    using server_full_props(1) by (simp add: server_after_read_eq cache_keys_def touch_def)
  have nin: "filler_key 100 \<notin> set (map filler_key [0..<100])"
    by (simp only: filler_key_mem) simp
  then have miss: "\<not> map_has (take 50 (base64 [of_nat 100])) (descriptorCache server_after_read)"
    using keys by (simp add: map_has_def cache_keys_def filler_key_def)
  from insert_face_server [OF miss] obtain z2 where
    z2: "server_after_insert = cache_insert_server (filler_key 100) [1, 2] z2"
      "descriptorCache z2 = descriptorCache server_after_read"
    unfolding server_after_insert_def filler_key_def by blast
  have k2: "cache_keys z2 = map filler_key [0..<100]"
    using keys z2(2) by (simp add: cache_keys_def)
  have inj: "inj_on filler_key (set [0..<100])"
    by (rule inj_on_subset [OF filler_key_inj_on]) (simp add: subset_iff)
  have d2: "distinct (cache_keys z2)" unfolding k2 using inj by (simp add: distinct_map)
  have l2: "length (descriptorCache z2) = 100"
    using k2 by (metis cache_keys_def length_map length_upt diff_zero)
  have m2: "\<not> map_has (filler_key 100) (descriptorCache z2)"
    using nin k2 by (simp add: map_has_def cache_keys_def)
  have "tl (map filler_key [0..<100]) = map filler_key [1..<100]"
    by (simp add: upt_conv_Cons [of 0] map_tl [symmetric] del: upt_Suc)
  then show ?thesis
    unfolding z2(1) server_fifo [OF d2 l2 m2] k2 by simp
qed

text \<open>
  Claim C6 as stated fails on the server module: its cache evicts in insertion order,
  and a read does not refresh an entry. After the images \<open>[0]\<close>, ..., \<open>[99]\<close> have filled
  the cache and \<open>[0]\<close> has been read again, the insertion of \<open>[100]\<close> evicts the entry
  of \<open>[0]\<close>, the most recently used one, and keeps the entry of \<open>[1]\<close>.
\<close>

theorem server_eviction_counterexample:
  "length (descriptorCache server_full) = 100
   \<and> map_has (filler_key 0) (descriptorCache server_after_read)
   \<and> lastUse server_after_read (filler_key 1) < lastUse server_after_read (filler_key 0)
   \<and> \<not> map_has (filler_key 0) (descriptorCache server_after_insert)
   \<and> map_has (filler_key 1) (descriptorCache server_after_insert)"
proof -
  have a: "map_has (filler_key 0) (descriptorCache server_after_read)"
    using server_full_props(1)
    by (simp add: server_after_read_eq map_has_def cache_keys_def touch_def)
  have n10: "filler_key 1 \<noteq> filler_key 0" by (rule filler_key_neq) simp_all
  have "lastUse server_after_read (filler_key 1) = 1"
    using server_full_props(2) n10 by (simp add: server_after_read_eq touch_def)
  moreover have "lastUse server_after_read (filler_key 0) = 100"
    using server_full_props(3) by (simp add: server_after_read_eq touch_def)
  ultimately have b: "lastUse server_after_read (filler_key 1) < lastUse server_after_read (filler_key 0)"
    by simp
  have n0: "filler_key 0 \<noteq> filler_key 100" by (rule filler_key_neq) simp_all
  have "filler_key 0 \<notin> set (map filler_key [1..<100])"
    by (simp only: filler_key_mem) simp
  then have "filler_key 0 \<notin> set (map filler_key [1..<100] @ [filler_key 100])"
    using n0 by simp
  then have c: "\<not> map_has (filler_key 0) (descriptorCache server_after_insert)"
    using server_after_insert_keys by (simp add: map_has_def cache_keys_def)
  have "filler_key 1 \<in> set (map filler_key [1..<100] @ [filler_key 100])" by simp
  then have d: "map_has (filler_key 1) (descriptorCache server_after_insert)"
    using server_after_insert_keys by (simp add: map_has_def cache_keys_def)
  show ?thesis using server_full_props(4) a b c d by blast
qed

text \<open>
  Claim C6, as amended. The cache of \<open>src/utils/db.js\<close> never holds more than
  \<open>CACHE_SIZE_LIMIT = 100\<close> entries after an extraction, and an insertion into a full
  cache evicts the least recently used entry: the victim was used (read or written)
  before every other entry. The cache of the server module never holds more than
  \<open>100\<close> entries after an extraction and its keys stay distinct; an insertion into a
  full cache evicts the entry that was inserted first, whenever it was last read.
\<close>

theorem cache_bound_and_eviction:
  "cache_ok (extract_all calls initial_state)
   \<and> length (descriptorCache (extract_all calls initial_state)) \<le> CACHE_SIZE_LIMIT
   \<and> (cache_ok s \<and> length (descriptorCache s) = CACHE_SIZE_LIMIT
        \<and> \<not> map_has k (descriptorCache s) \<longrightarrow>
        (\<exists>victim. victim \<in> set (cache_keys s)
           \<and> list_all (\<lambda>k'. k' = victim \<or> lastUse s victim < lastUse s k') (cache_keys s)
           \<and> set (cache_keys (cache_insert k d s)) = insert k (set (cache_keys s) - {victim})))
   \<and> length (descriptorCache (extract_all_server server_calls initial_state)) \<le> 100
   \<and> distinct (cache_keys (extract_all_server server_calls initial_state))
   \<and> (distinct (cache_keys z) \<and> length (descriptorCache z) = 100
        \<and> \<not> map_has key (descriptorCache z) \<longrightarrow>
        cache_keys (cache_insert_server key d z) = tl (cache_keys z) @ [key])"
proof -
  have ok: "cache_ok (extract_all calls initial_state)"
    by (rule cache_ok_extract_all [OF cache_ok_initial])
  then have le: "length (descriptorCache (extract_all calls initial_state)) \<le> CACHE_SIZE_LIMIT"
    by (simp add: cache_ok_def)
  have sl: "length (descriptorCache (extract_all_server server_calls initial_state)) \<le> 100"
    by (rule server_extract_all_bound) (simp add: initial_state_def)
  have sd: "distinct (cache_keys (extract_all_server server_calls initial_state))"
    by (rule server_distinct_extract_all) (simp add: initial_state_def cache_keys_def)
  show ?thesis
    using ok le sl sd lru_eviction [of s k d] server_fifo [of z key d] by blast
qed

lemma utils_full_ok: "cache_ok utils_full"
proof -
  have k: "cache_keys utils_full = map int [0..<100]"
    by (simp add: utils_full_def cache_keys_def comp_def)
  have "sorted_wrt (\<lambda>a b. nat a < nat b) (map int [0..<100])"
    unfolding sorted_wrt_map by (simp only: nat_int sorted_wrt_upt)
  moreover have "list_all (\<lambda>k. nat k < 100) (map int [0..<100])"
    by (simp add: list_all_iff del: upt_Suc)
  moreover have "distinct (map int [0..<100])"
    by (simp add: distinct_map del: upt_Suc)
  ultimately show ?thesis
    unfolding cache_ok_def k
    by (simp add: utils_full_def CACHE_SIZE_LIMIT_def initial_state_def del: upt_Suc)
qed

theorem cache_bound_and_eviction_witness:
  "cache_ok utils_full \<and> length (descriptorCache utils_full) = CACHE_SIZE_LIMIT
   \<and> \<not> map_has 100 (descriptorCache utils_full)
   \<and> (\<exists>victim. victim \<in> set (cache_keys utils_full)
         \<and> list_all (\<lambda>k'. k' = victim \<or> lastUse utils_full victim < lastUse utils_full k')
              (cache_keys utils_full)
         \<and> set (cache_keys (cache_insert 100 [1, 2] utils_full))
             = insert 100 (set (cache_keys utils_full) - {victim}))
   \<and> distinct (cache_keys server_full) \<and> length (descriptorCache server_full) = 100
   \<and> \<not> map_has (filler_key 100) (descriptorCache server_full)
   \<and> cache_keys (cache_insert_server (filler_key 100) [1, 2] server_full)
       = tl (cache_keys server_full) @ [filler_key 100]
   \<and> cache_ok (extract_all [(env_face, [], 0)] initial_state)"
proof -
  have u1: "length (descriptorCache utils_full) = CACHE_SIZE_LIMIT"
    by (simp add: utils_full_def CACHE_SIZE_LIMIT_def del: upt_Suc)
  have u2: "\<not> map_has 100 (descriptorCache utils_full)"
    by (auto simp: utils_full_def map_has_def comp_def simp del: upt_Suc)
  have s1: "distinct (cache_keys server_full)"
    unfolding server_full_props(1)
    using inj_on_subset [OF filler_key_inj_on, of "{0..<100}"] by (simp add: distinct_map subset_iff)
  have s3: "\<not> map_has (filler_key 100) (descriptorCache server_full)"
    using server_full_props(1) filler_key_mem [of 100 100 0]
    by (simp add: map_has_def cache_keys_def)
  note w = cache_bound_and_eviction [where s = utils_full and k = 100 and d = "[1, 2]"
      and z = server_full and key = "filler_key 100" and calls = "[(env_face, [], 0)]"]
  from w utils_full_ok u1 u2 s1 server_full_props(4) s3 show ?thesis by blast
qed

section \<open>The unrolled loops and the Euclidean distance\<close>

lemma ieee_int: "\<bar>k\<bar> < 2 ^ 53 \<Longrightarrow> ieee (of_int k) = Num (of_int k)"
  by (rule ieee_exact [where M = k and j = 0]) simp_all

lemma ieee_numeral:
  "(numeral n :: int) < 2 ^ 53 \<Longrightarrow> ieee (numeral n) = Num (numeral n)"
  "(numeral n :: int) < 2 ^ 53 \<Longrightarrow> ieee (- numeral n) = Num (- numeral n)"
  using ieee_int [of "numeral n"] ieee_int [of "- numeral n"] by simp_all

lemma ieee_large:
  "ieee 18014398509481984 = Num 18014398509481984"
  "ieee 18014398509481988 = Num 18014398509481988"
  "ieee 18014398509481992 = Num 18014398509481992"
  by (rule ieee_exact [where M = 1 and j = 54], simp_all)
     (rule ieee_exact [where M = 4503599627370497 and j = 2], simp_all,
      rule ieee_exact [where M = 4503599627370498 and j = 2], simp_all)

text \<open>\<open>2 ^ 54 + 1\<close> is not a double: the sum is rounded back to \<open>2 ^ 54\<close>.\<close>

lemma ieee_absorbed: "ieee 18014398509481985 = Num 18014398509481984"
proof -
  have "ieee 18014398509481985 = Num (of_int 4503599627370496 * 4)"
    by (rule ieee_eval [where e = 54]) (simp_all add: rne_def)
  then show ?thesis by simp
qed

lemma ieee_sqrt_large:
  "ieee (sqrt 18014398509481988) = Num 134217728"
  "ieee (sqrt 18014398509481992) = Num (4503599627370497 / 33554432)"
proof -
  have "rne (sqrt 18014398509481988 / (1 / 2 ^ 25)) = 4503599627370496"
    by (simp add: sqrt_scaled) (rule rne_sqrt; simp add: power2_eq_square)
  then have "ieee (sqrt 18014398509481988) = Num (of_int 4503599627370496 * (1 / 2 ^ 25))"
    by (intro ieee_eval [where e = 27])
       (simp_all add: powr_minus_divide real_le_rsqrt real_less_lsqrt)
  then show "ieee (sqrt 18014398509481988) = Num 134217728" by simp
  have "rne (sqrt 18014398509481992 / (1 / 2 ^ 25)) = 4503599627370497"
    by (simp add: sqrt_scaled) (rule rne_sqrt; simp add: power2_eq_square)
  then have "ieee (sqrt 18014398509481992) = Num (of_int 4503599627370497 * (1 / 2 ^ 25))"
    by (intro ieee_eval [where e = 27])
       (simp_all add: powr_minus_divide real_le_rsqrt real_less_lsqrt)
  then show "ieee (sqrt 18014398509481992) = Num (4503599627370497 / 33554432)" by simp
qed

lemma sqrt_25: "sqrt 25 = 5"
  using real_sqrt_abs [of 5] by simp

lemmas eval_rounding = distance8_def distance8_with_def distance4_def distance4_with_def
  sum8_unfold sum8_stop sum4_unfold sum4_stop pow_term_cases diff_term_cases
  ieee_1 ieee_numeral ieee_large ieee_absorbed ieee_sqrt_large ieee_sqrt_2 power2_eq_square

lemma distance_3_4:
  "distance8 [3, 0] [0, 4] = Num 5" "distance4 [3, 0] [0, 4] = Num 5"
  by (simp_all add: eval_rounding sqrt_25)

lemma distance_sqrt_2:
  "distance8 [1, 1] [0, 0] = Num (6369051672525773 / 4503599627370496)"
  "distance4 [1, 1] [0, 0] = Num (6369051672525773 / 4503599627370496)"
  by (simp_all add: eval_rounding)

lemma distance_groupings:
  "distance8 [134217728, 1, 1, 1, 1, 1, 1, 1, 1, 1, 1, 1] [0, 0, 0, 0, 0, 0, 0, 0, 0, 0, 0, 0]
     = Num 134217728"
  "distance4 [134217728, 1, 1, 1, 1, 1, 1, 1, 1, 1, 1, 1] [0, 0, 0, 0, 0, 0, 0, 0, 0, 0, 0, 0]
     = Num (4503599627370497 / 33554432)"
  by (simp_all add: eval_rounding)

subsection \<open>The rounding error of the loops\<close>

lemma approx_simps [simp]:
  "approx k x PosInfinity = (0 \<le> x)" "\<not> approx k x NaN" "\<not> approx k x NegInfinity"
  "approx k x (Num y) =
     (0 \<le> x \<and> rel_lo ^ k * x \<le> y \<and> y \<le> rel_hi ^ k * x \<and> (y = 0 \<or> tiny \<le> y))"
  by (simp_all add: approx_def)

lemma lo_hi [simp]:
  "0 \<le> rel_lo" "rel_lo \<le> 1" "1 \<le> rel_hi" "0 \<le> rel_hi" "0 < tiny" "0 \<le> tiny"
  by (simp_all add: rel_lo_def rel_hi_def tiny_def)

lemma lo_pow_mono: "j \<le> k \<Longrightarrow> rel_lo ^ k \<le> rel_lo ^ j"
  by (rule power_decreasing) simp_all

lemma hi_pow_mono: "j \<le> k \<Longrightarrow> rel_hi ^ j \<le> rel_hi ^ k"
  by (rule power_increasing) simp_all

lemma approx_mono:
  assumes "approx j x v" "j \<le> k"
  shows "approx k x v"
proof (cases v)
  case (Num y)
  have x: "0 \<le> x" using assms(1) by (simp add: approx_def)
  have "rel_lo ^ k * x \<le> rel_lo ^ j * x"
    using lo_pow_mono [OF assms(2)] x by (rule mult_right_mono)
  moreover have "rel_hi ^ j * x \<le> rel_hi ^ k * x"
    using hi_pow_mono [OF assms(2)] x by (rule mult_right_mono)
  ultimately show ?thesis using assms(1) Num by auto
qed (use assms(1) in simp_all)

lemma is_double_tiny: "is_double tiny"
  unfolding is_double_def tiny_def
  by (rule ieee_exact [where M = 1 and j = "- 1002"]) (simp_all add: powr_minus_divide)

lemma approx_round:
  assumes "0 \<le> x" "x = 0 \<or> tiny \<le> x"
  shows "approx 1 x (ieee x)"
proof (cases "x = 0")
  case True
  then show ?thesis by simp
next
  case False
  then have T: "tiny \<le> x" using assms(2) by simp
  have "(1 / 2 ^ 1022 :: real) \<le> tiny" by (simp add: tiny_def)
  then have "1 / 2 ^ 1022 \<le> \<bar>x\<bar>" using T by linarith
  note r = ieee_rel [OF this]
  have g: "js_le (Num tiny) (ieee x)"
    by (rule ieee_ge_double [OF is_double_tiny _ T]) simp
  show ?thesis
  proof (cases "ieee x")
    case (Num y)
    with r have "\<bar>y - x\<bar> \<le> \<bar>x\<bar> / 2 ^ 53" by simp
    then have b: "x - x / 2 ^ 53 \<le> y" "y \<le> x + x / 2 ^ 53"
      using assms(1) by (simp_all only: abs_le_iff abs_of_nonneg) linarith+
    have e: "rel_lo * x = x - x / 2 ^ 53" "rel_hi * x = x + x / 2 ^ 53"
      by (simp_all add: rel_lo_def rel_hi_def algebra_simps)
    have "rel_lo ^ 1 * x \<le> y" "y \<le> rel_hi ^ 1 * x"
      by (simp_all only: power_one_right e b)
    moreover have "tiny \<le> y" using g Num by simp
    ultimately show ?thesis using Num assms(1) by (simp only: approx_simps simp_thms)
  next
    case NegInfinity
    then show ?thesis using ieee_nonneg [OF assms(1)] by simp
  qed (use assms(1) in simp_all)
qed

lemma approx_round_of:
  assumes "0 \<le> X" "rel_lo ^ k * X \<le> s" "s \<le> rel_hi ^ k * X" "s = 0 \<or> tiny \<le> s"
  shows "approx (Suc k) X (ieee s)"
proof -
  have "0 \<le> rel_lo ^ k * X" using assms(1) by simp
  then have s: "0 \<le> s" using assms(2) by linarith
  note r = approx_round [OF s assms(4)]
  show ?thesis
  proof (cases "ieee s")
    case (Num y)
    with r have y: "rel_lo * s \<le> y" "y \<le> rel_hi * s" "y = 0 \<or> tiny \<le> y" by simp_all
    have "rel_lo * (rel_lo ^ k * X) \<le> rel_lo * s"
      using assms(2) by (intro mult_left_mono) simp_all
    then have lo: "rel_lo ^ Suc k * X \<le> y" using y(1) by (simp add: mult.assoc)
    have "rel_hi * s \<le> rel_hi * (rel_hi ^ k * X)"
      using assms(3) by (intro mult_left_mono) simp_all
    then have hi: "y \<le> rel_hi ^ Suc k * X" using y(2) by (simp add: mult.assoc)
    show ?thesis using Num lo hi y(3) assms(1) by simp
  qed (use r assms(1) in simp_all)
qed

lemma approx_nonneg: "approx k x (Num y) \<Longrightarrow> 0 \<le> y"
proof -
  assume a: "approx k x (Num y)"
  then have "y = 0 \<or> tiny \<le> y" by simp
  then show ?thesis using order_trans [of 0 tiny y] by auto
qed

lemma approx_add:
  assumes "approx j x a" "approx k z b" "j \<le> n" "k \<le> n"
  shows "approx (Suc n) (x + z) (js_add ieee a b)"
proof -
  note a = approx_mono [OF assms(1,3)] and b = approx_mono [OF assms(2,4)]
  have x: "0 \<le> x" "0 \<le> z" using a b by (simp_all add: approx_def)
  show ?thesis
  proof (cases a)
    case na: (Num y1)
    show ?thesis
    proof (cases b)
      case nb: (Num y2)
      have y: "0 \<le> y1" "0 \<le> y2"
        using a b na nb approx_nonneg by blast+
      have "approx (Suc n) (x + z) (ieee (y1 + y2))"
      proof (rule approx_round_of)
        show "0 \<le> x + z" using x by simp
        show "rel_lo ^ n * (x + z) \<le> y1 + y2"
          using a b na nb by (simp add: distrib_left)
        show "y1 + y2 \<le> rel_hi ^ n * (x + z)"
          using a b na nb by (simp add: distrib_left)
        show "y1 + y2 = 0 \<or> tiny \<le> y1 + y2"
          using a b na nb y by auto
      qed
      then show ?thesis using na nb by simp
    qed (use b x na in simp_all)
  next
    case PosInfinity
    then show ?thesis using b x by (cases b) simp_all
  qed (use a in simp_all)
qed

lemma approx_zero [simp]: "approx k 0 (Num 0)"
  by simp

lemma rel_lo_half: "1 / 2 \<le> rel_lo"
  by (simp add: rel_lo_def)

lemma approx_square:
  assumes "d = 0 \<or> 1 / 2 ^ 500 \<le> \<bar>d\<bar>"
  shows "approx 3 (d\<^sup>2) (js_pow2 ieee (ieee d))"
    and "approx 3 (d\<^sup>2) (js_mul ieee (ieee d) (ieee d))"
proof -
  have "approx 3 (d\<^sup>2) (js_pow2 ieee (ieee d)) \<and> approx 3 (d\<^sup>2) (js_mul ieee (ieee d) (ieee d))"
  proof (cases "d = 0")
    case True
    then show ?thesis by simp
  next
    case False
    then have big: "1 / 2 ^ 500 \<le> \<bar>d\<bar>" using assms by simp
    have "(1 / 2 ^ 1022 :: real) \<le> 1 / 2 ^ 500" by simp
    then have "1 / 2 ^ 1022 \<le> \<bar>d\<bar>" using big by linarith
    note r = ieee_rel [OF this]
    show ?thesis
    proof (cases "ieee d")
      case (Num y)
      with r have "\<bar>y - d\<bar> \<le> \<bar>d\<bar> / 2 ^ 53" by simp
      then have "\<bar>d\<bar> - \<bar>d\<bar> / 2 ^ 53 \<le> \<bar>y\<bar>" "\<bar>y\<bar> \<le> \<bar>d\<bar> + \<bar>d\<bar> / 2 ^ 53"
        by linarith+
      moreover have "rel_lo * \<bar>d\<bar> = \<bar>d\<bar> - \<bar>d\<bar> / 2 ^ 53" "rel_hi * \<bar>d\<bar> = \<bar>d\<bar> + \<bar>d\<bar> / 2 ^ 53"
        by (simp_all add: rel_lo_def rel_hi_def algebra_simps)
      ultimately have b: "rel_lo * \<bar>d\<bar> \<le> \<bar>y\<bar>" "\<bar>y\<bar> \<le> rel_hi * \<bar>d\<bar>"
        by (simp_all only:)
      have "(rel_lo * \<bar>d\<bar>)\<^sup>2 \<le> \<bar>y\<bar>\<^sup>2"
        using b(1) by (intro power_mono) simp_all
      then have lo: "rel_lo ^ 2 * d\<^sup>2 \<le> y\<^sup>2" by (simp add: power_mult_distrib)
      have "\<bar>y\<bar>\<^sup>2 \<le> (rel_hi * \<bar>d\<bar>)\<^sup>2"
        using b(2) by (intro power_mono) simp_all
      then have hi: "y\<^sup>2 \<le> rel_hi ^ 2 * d\<^sup>2" by (simp add: power_mult_distrib)
      have "(1 / 2 * (1 / 2 ^ 500))\<^sup>2 \<le> (rel_lo * \<bar>d\<bar>)\<^sup>2"
        using rel_lo_half big by (intro power_mono mult_mono) simp_all
      also have "\<dots> \<le> y\<^sup>2" using lo by (simp add: power_mult_distrib)
      finally have "tiny \<le> y\<^sup>2" by (simp add: tiny_def power_mult_distrib power_divide)
      then have "approx (Suc 2) (d\<^sup>2) (ieee (y\<^sup>2))"
        using lo hi by (intro approx_round_of) simp_all
      then show ?thesis using Num by (simp add: numeral_3_eq_3 power2_eq_square)
    qed (use r in simp_all)
  qed
  then show "approx 3 (d\<^sup>2) (js_pow2 ieee (ieee d))"
    and "approx 3 (d\<^sup>2) (js_mul ieee (ieee d) (ieee d))"
    by simp_all
qed

lemma approx_pow_term:
  assumes "length a \<le> length b"
    and "\<forall>i<length a. a ! i = b ! i \<or> 1 / 2 ^ 500 \<le> \<bar>a ! i - b ! i\<bar>"
  shows "approx 3 (if k < length a then (a ! k - b ! k)\<^sup>2 else 0) (pow_term ieee a b k)"
proof (cases "k < length a")
  case True
  then have "a ! k - b ! k = 0 \<or> 1 / 2 ^ 500 \<le> \<bar>a ! k - b ! k\<bar>" using assms(2) by auto
  from approx_square(1) [OF this] show ?thesis
    using True assms(1) by (simp add: pow_term_cases)
next
  case False
  then show ?thesis by (simp add: pow_term_cases)
qed

lemma approx_diff_term:
  assumes "length a \<le> length b"
    and "\<forall>i<length a. a ! i = b ! i \<or> 1 / 2 ^ 500 \<le> \<bar>a ! i - b ! i\<bar>"
  shows "approx 3 (if k < length a then (a ! k - b ! k)\<^sup>2 else 0)
           (js_mul ieee (diff_term ieee a b k) (diff_term ieee a b k))"
proof (cases "k < length a")
  case True
  then have "a ! k - b ! k = 0 \<or> 1 / 2 ^ 500 \<le> \<bar>a ! k - b ! k\<bar>" using assms(2) by auto
  from approx_square(2) [OF this] show ?thesis
    using True assms(1) by (simp add: diff_term_cases)
next
  case False
  then show ?thesis by (simp add: diff_term_cases)
qed

lemma sum8_approx:
  assumes "length a \<le> length b"
    and "\<forall>i<length a. a ! i = b ! i \<or> 1 / 2 ^ 500 \<le> \<bar>a ! i - b ! i\<bar>"
  shows "approx k s acc \<Longrightarrow> 10 \<le> k \<Longrightarrow>
     approx (k + (length a - j)) (s + (\<Sum>i\<leftarrow>[j..<length a]. (a ! i - b ! i)\<^sup>2))
       (sum8 ieee a b j acc)"
  using assms
proof (induction ieee a b j acc arbitrary: k s rule: sum8.induct)
  case (1 a b j acc)
  let ?f = "\<lambda>i. (a ! i - b ! i)\<^sup>2"
  let ?g = "\<lambda>k. if k < length a then ?f k else 0"
  note t = approx_pow_term [OF 1(4,5)]
  show ?case
  proof (cases "j < length a")
    case True
    let ?blk = "?g j + ?g (j + 1) + ?g (j + 2) + ?g (j + 3) + ?g (j + 4) + ?g (j + 5)
                + ?g (j + 6) + ?g (j + 7)"
    let ?b = "js_add ieee (js_add ieee (js_add ieee (js_add ieee (js_add ieee (js_add ieee
                (js_add ieee (pow_term ieee a b j) (pow_term ieee a b (j + 1)))
                (pow_term ieee a b (j + 2))) (pow_term ieee a b (j + 3)))
                (pow_term ieee a b (j + 4))) (pow_term ieee a b (j + 5)))
                (pow_term ieee a b (j + 6))) (pow_term ieee a b (j + 7))"
    note b1 = approx_add [OF t [of j] t [of "j + 1"] order_refl order_refl]
    note b2 = approx_add [OF b1 t [of "j + 2"] order_refl]
    note b3 = approx_add [OF b2 t [of "j + 3"] order_refl]
    note b4 = approx_add [OF b3 t [of "j + 4"] order_refl]
    note b5 = approx_add [OF b4 t [of "j + 5"] order_refl]
    note b6 = approx_add [OF b5 t [of "j + 6"] order_refl]
    note b7 = approx_add [OF b6 t [of "j + 7"] order_refl]
    have blk: "approx 10 ?blk ?b"
      using b7 by (simp add: eval_nat_numeral)
    have acc: "approx (Suc k) (s + ?blk) (js_add ieee acc ?b)"
      by (rule approx_add [OF 1(2) blk order_refl 1(3)])
    have "approx (Suc k + (length a - (j + 8)))
            (s + ?blk + (\<Sum>i\<leftarrow>[j + 8..<length a]. ?f i))
            (sum8 ieee a b (j + 8) (js_add ieee acc ?b))"
      using 1(3) by (intro 1(1) [OF True acc _ 1(4,5)]) simp
    then have "approx (k + (length a - j))
            (s + ?blk + (\<Sum>i\<leftarrow>[j + 8..<length a]. ?f i))
            (sum8 ieee a b (j + 8) (js_add ieee acc ?b))"
      by (rule approx_mono) (use True in simp)
    moreover have "s + ?blk + (\<Sum>i\<leftarrow>[j + 8..<length a]. ?f i) = s + (\<Sum>i\<leftarrow>[j..<length a]. ?f i)"
      by (subst (2) sl_block8) (simp only: add.assoc)
    ultimately show ?thesis
      by (simp only: sum8_unfold [OF True])
  next
    case False
    then show ?thesis using 1(2) by (simp add: sum8_stop)
  qed
qed

lemma sum4_approx:
  assumes "length a \<le> length b"
    and "\<forall>i<length a. a ! i = b ! i \<or> 1 / 2 ^ 500 \<le> \<bar>a ! i - b ! i\<bar>"
  shows "approx k s acc \<Longrightarrow> 10 \<le> k \<Longrightarrow>
     approx (k + (length a - j)) (s + (\<Sum>i\<leftarrow>[j..<length a]. (a ! i - b ! i)\<^sup>2))
       (sum4 ieee a b j acc)"
  using assms
proof (induction ieee a b j acc arbitrary: k s rule: sum4.induct)
  case (1 a b j acc)
  let ?f = "\<lambda>i. (a ! i - b ! i)\<^sup>2"
  let ?g = "\<lambda>k. if k < length a then ?f k else 0"
  let ?m = "\<lambda>k. js_mul ieee (diff_term ieee a b k) (diff_term ieee a b k)"
  note t = approx_diff_term [OF 1(4,5)]
  show ?case
  proof (cases "j < length a")
    case True
    let ?blk = "?g j + ?g (j + 1) + ?g (j + 2) + ?g (j + 3)"
    let ?b = "js_add ieee (js_add ieee (js_add ieee (?m j) (?m (j + 1))) (?m (j + 2))) (?m (j + 3))"
    note b1 = approx_add [OF t [of j] t [of "j + 1"] order_refl order_refl]
    note b2 = approx_add [OF b1 t [of "j + 2"] order_refl]
    note b3 = approx_add [OF b2 t [of "j + 3"] order_refl]
    have "approx 6 ?blk ?b"
      using b3 by (simp add: eval_nat_numeral)
    then have blk: "approx 10 ?blk ?b" by (rule approx_mono) simp
    have acc: "approx (Suc k) (s + ?blk) (js_add ieee acc ?b)"
      by (rule approx_add [OF 1(2) blk order_refl 1(3)])
    have "approx (Suc k + (length a - (j + 4)))
            (s + ?blk + (\<Sum>i\<leftarrow>[j + 4..<length a]. ?f i))
            (sum4 ieee a b (j + 4) (js_add ieee acc ?b))"
      using 1(3)
      by (intro 1(1) [OF True refl refl refl refl, unfolded first_diff_eq [OF True],
            OF acc _ 1(4,5)]) simp
    then have "approx (k + (length a - j))
            (s + ?blk + (\<Sum>i\<leftarrow>[j + 4..<length a]. ?f i))
            (sum4 ieee a b (j + 4) (js_add ieee acc ?b))"
      by (rule approx_mono) (use True in simp)
    moreover have "s + ?blk + (\<Sum>i\<leftarrow>[j + 4..<length a]. ?f i) = s + (\<Sum>i\<leftarrow>[j..<length a]. ?f i)"
      by (subst (2) sl_block4) (simp only: add.assoc)
    ultimately show ?thesis
      by (simp only: sum4_unfold [OF True])
  next
    case False
    then show ?thesis using 1(2) by (simp add: sum4_stop)
  qed
qed

lemma le_sqrt_unit: "0 \<le> c \<Longrightarrow> c \<le> 1 \<Longrightarrow> c \<le> sqrt c"
  by (rule real_le_rsqrt) (simp add: power2_eq_square mult_left_le)

lemma sqrt_le_above: "1 \<le> c \<Longrightarrow> sqrt c \<le> c"
  by (rule real_le_lsqrt) (simp_all add: power2_eq_square)

lemma approx_sqrt:
  assumes "approx k S v"
  shows "approx (Suc k) (sqrt S) (js_sqrt ieee v)"
proof (cases v)
  case (Num y)
  have S: "0 \<le> S" using assms by (simp add: approx_def)
  have y: "0 \<le> y" using assms Num approx_nonneg by blast
  have b: "rel_lo ^ k * S \<le> y" "y \<le> rel_hi ^ k * S" "y = 0 \<or> tiny \<le> y"
    using assms Num by simp_all
  have "approx (Suc k) (sqrt S) (ieee (sqrt y))"
  proof (rule approx_round_of)
    show "0 \<le> sqrt S" using S by simp
    have "rel_lo ^ k \<le> sqrt (rel_lo ^ k)"
      by (rule le_sqrt_unit) (simp_all add: power_le_one)
    then have "rel_lo ^ k * sqrt S \<le> sqrt (rel_lo ^ k) * sqrt S"
      using S by (intro mult_right_mono) simp_all
    also have "\<dots> = sqrt (rel_lo ^ k * S)" by (simp add: real_sqrt_mult)
    also have "\<dots> \<le> sqrt y" using b(1) by simp
    finally show "rel_lo ^ k * sqrt S \<le> sqrt y" .
    have "sqrt y \<le> sqrt (rel_hi ^ k * S)" using b(2) by simp
    also have "\<dots> = sqrt (rel_hi ^ k) * sqrt S" by (simp add: real_sqrt_mult)
    also have "\<dots> \<le> rel_hi ^ k * sqrt S"
      using S by (intro mult_right_mono sqrt_le_above) (simp_all add: one_le_power)
    finally show "sqrt y \<le> rel_hi ^ k * sqrt S" .
    show "sqrt y = 0 \<or> tiny \<le> sqrt y"
    proof (cases "y = 0")
      case True
      then show ?thesis by simp
    next
      case False
      then have "tiny \<le> y" using b(3) by simp
      then have "sqrt tiny \<le> sqrt y" by (simp only: real_sqrt_le_iff)
      moreover have "tiny \<le> sqrt tiny"
        by (rule le_sqrt_unit) (simp_all add: tiny_def)
      ultimately have "tiny \<le> sqrt y" by (rule order_trans [rotated])
      then show ?thesis by (rule disjI2)
    qed
  qed
  then show ?thesis using Num y by simp
qed (use assms in simp_all)

lemma distance_approx:
  assumes "length a \<le> length b"
    and "\<forall>i<length a. a ! i = b ! i \<or> 1 / 2 ^ 500 \<le> \<bar>a ! i - b ! i\<bar>"
  shows "approx (length a + 11) (euclidean_distance a b) (distance8 a b)"
    and "approx (length a + 11) (euclidean_distance a b) (distance4 a b)"
proof -
  have z: "approx 10 0 (Num 0)" by simp
  have "approx (Suc (10 + (length a - 0))) (sqrt (0 + (\<Sum>i\<leftarrow>[0..<length a]. (a ! i - b ! i)\<^sup>2)))
          (js_sqrt ieee (sum8 ieee a b 0 (Num 0)))"
    by (intro approx_sqrt sum8_approx [OF assms z]) simp
  then show "approx (length a + 11) (euclidean_distance a b) (distance8 a b)"
    by (simp add: euclidean_distance_def distance8_def distance8_with_def add.commute)
  have "approx (Suc (10 + (length a - 0))) (sqrt (0 + (\<Sum>i\<leftarrow>[0..<length a]. (a ! i - b ! i)\<^sup>2)))
          (js_sqrt ieee (sum4 ieee a b 0 (Num 0)))"
    by (intro approx_sqrt sum4_approx [OF assms z]) simp
  then show "approx (length a + 11) (euclidean_distance a b) (distance4 a b)"
    by (simp add: euclidean_distance_def distance4_def distance4_with_def add.commute)
qed

text \<open>
  Claim C9, as amended. With exact arithmetic, the stride-8 loop of \<open>findMatchingFace\<close>
  and the stride-4 loop of \<open>findMatchingFaceDirectly\<close> and
  \<open>compareFaceDescriptors\<close>, followed by the square root, both give the reference
  Euclidean distance of two descriptors of equal length: the unrolling, with its guards,
  is the reference formula. As the program runs them, every operation rounds to a double:
  for descriptors of equal length \<open>n\<close> the computed distance is a non-negative number or
  \<open>Infinity\<close>, never NaN; and when every componentwise difference is zero or at least
  \<open>2 ^ -500\<close> in magnitude (differences of single-precision entries are), a computed
  number lies within the factors \<open>(1 - 2 ^ -53) ^ (n + 11)\<close> and
  \<open>(1 + 2 ^ -53) ^ (n + 11)\<close> of the reference distance.
\<close>

theorem unrolled_distance_is_euclidean:
  assumes "length a = length b"
  shows "distance8_with exact a b = Num (euclidean_distance a b)
       \<and> distance4_with exact a b = Num (euclidean_distance a b)
       \<and> (distance8 a b = PosInfinity \<or> (\<exists>e\<ge>0. distance8 a b = Num e))
       \<and> (distance4 a b = PosInfinity \<or> (\<exists>e\<ge>0. distance4 a b = Num e))
       \<and> ((\<forall>i<length a. a ! i = b ! i \<or> 1 / 2 ^ 500 \<le> \<bar>a ! i - b ! i\<bar>) \<longrightarrow>
            (\<forall>e. distance8 a b = Num e \<or> distance4 a b = Num e \<longrightarrow>
               (1 - 1 / 2 ^ 53) ^ (length a + 11) * euclidean_distance a b \<le> e
               \<and> e \<le> (1 + 1 / 2 ^ 53) ^ (length a + 11) * euclidean_distance a b))"
proof -
  have le: "length a \<le> length b" using assms by simp
  have "distance8_with exact a b = Num (euclidean_distance a b)"
    by (simp add: distance8_exact [OF le] euclidean_distance_def)
  moreover have "distance4_with exact a b = Num (euclidean_distance a b)"
    by (simp add: distance4_exact [OF le] euclidean_distance_def)
  moreover have "distance8 a b = PosInfinity \<or> (\<exists>e\<ge>0. distance8 a b = Num e)"
    using distance8_long [OF le] by (simp add: nonneg_num_cases)
  moreover have "distance4 a b = PosInfinity \<or> (\<exists>e\<ge>0. distance4 a b = Num e)"
    using distance4_long [OF le] by (simp add: nonneg_num_cases)
  moreover have "(1 - 1 / 2 ^ 53) ^ (length a + 11) * euclidean_distance a b \<le> e
               \<and> e \<le> (1 + 1 / 2 ^ 53) ^ (length a + 11) * euclidean_distance a b"
    if h: "\<forall>i<length a. a ! i = b ! i \<or> 1 / 2 ^ 500 \<le> \<bar>a ! i - b ! i\<bar>"
      and d: "distance8 a b = Num e \<or> distance4 a b = Num e" for e
  proof -
    have "rel_lo ^ (length a + 11) * euclidean_distance a b \<le> e
               \<and> e \<le> rel_hi ^ (length a + 11) * euclidean_distance a b"
      using distance_approx [OF le h] d by auto
    then show ?thesis unfolding rel_lo_def rel_hi_def .
  qed
  ultimately show ?thesis by blast
qed

theorem unrolled_distance_is_euclidean_witness:
  "length [3, 0 :: real] = length [0, 4 :: real]
   \<and> 1 / 2 ^ 500 \<le> \<bar>3 - 0 :: real\<bar> \<and> 1 / 2 ^ 500 \<le> \<bar>0 - 4 :: real\<bar>
   \<and> distance8_with exact [3, 0] [0, 4] = Num 5 \<and> distance4_with exact [3, 0] [0, 4] = Num 5
   \<and> distance8 [3, 0] [0, 4] = Num 5 \<and> distance4 [3, 0] [0, 4] = Num 5
   \<and> (1 - 1 / 2 ^ 53) ^ (length [3, 0 :: real] + 11) * 5 \<le> (5 :: real)
   \<and> (5 :: real) \<le> (1 + 1 / 2 ^ 53) ^ (length [3, 0 :: real] + 11) * 5"
proof -
  have len: "length [3, 0 :: real] = length [0, 4 :: real]" by simp
  note w = unrolled_distance_is_euclidean [OF len]
  have e: "euclidean_distance [3, 0] [0, 4] = 5"
    by (simp add: euclidean_distance_def sqrt_25)
  have s: "1 / 2 ^ 500 \<le> \<bar>3 - 0 :: real\<bar>" "1 / 2 ^ 500 \<le> \<bar>0 - 4 :: real\<bar>"
    by simp_all
  have h: "\<forall>i<length [3, 0 :: real]. [3, 0] ! i = [0, 4 :: real] ! i
             \<or> 1 / 2 ^ 500 \<le> \<bar>[3, 0] ! i - [0, 4 :: real] ! i\<bar>"
    using s by (simp add: less_Suc_eq)
  have b: "(1 - 1 / 2 ^ 53) ^ (length [3, 0 :: real] + 11) * 5 \<le> (5 :: real)
      \<and> (5 :: real) \<le> (1 + 1 / 2 ^ 53) ^ (length [3, 0 :: real] + 11) * 5"
    using w h distance_3_4(1) unfolding e by blast
  have x: "distance8_with exact [3, 0] [0, 4] = Num 5"
    "distance4_with exact [3, 0] [0, 4] = Num 5"
    using w unfolding e by blast+
  show ?thesis
    using len s x distance_3_4 b by blast
qed

text \<open>
  Claim C9 as stated fails on the computed distances. The descriptors \<open>[1, 1]\<close> and
  \<open>[0, 0]\<close> are at the reference distance \<open>sqrt 2\<close>, which is no double: both loops give
  \<open>1.4142135623730951\<close>, whose square is not \<open>2\<close>. And the two loops differ from one
  another: for \<open>2 ^ 27\<close> followed by eleven ones, against twelve zeros, the stride-8 loop
  gives \<open>134217728\<close> and the stride-4 loop \<open>134217728.00000003\<close>, so that at most one of
  them is the reference distance.
\<close>

theorem rounding_counterexample:
  "length [1, 1 :: real] = length [0, 0 :: real]
   \<and> euclidean_distance [1, 1] [0, 0] = sqrt 2
   \<and> distance8 [1, 1] [0, 0] = Num (6369051672525773 / 4503599627370496)
   \<and> distance4 [1, 1] [0, 0] = Num (6369051672525773 / 4503599627370496)
   \<and> distance8 [1, 1] [0, 0] \<noteq> Num (euclidean_distance [1, 1] [0, 0])
   \<and> distance4 [1, 1] [0, 0] \<noteq> Num (euclidean_distance [1, 1] [0, 0])
   \<and> distance8 [134217728, 1, 1, 1, 1, 1, 1, 1, 1, 1, 1, 1] [0, 0, 0, 0, 0, 0, 0, 0, 0, 0, 0, 0]
       = Num 134217728
   \<and> distance4 [134217728, 1, 1, 1, 1, 1, 1, 1, 1, 1, 1, 1] [0, 0, 0, 0, 0, 0, 0, 0, 0, 0, 0, 0]
       = Num (4503599627370497 / 33554432)"
proof -
  have e: "euclidean_distance [1, 1] [0, 0] = sqrt 2"
    by (simp add: euclidean_distance_def)
  have "(6369051672525773 / 4503599627370496 :: real)\<^sup>2 \<noteq> 2"
    by (simp add: power2_eq_square)
  then have "(6369051672525773 / 4503599627370496 :: real) \<noteq> sqrt 2"
    by (metis real_sqrt_pow2 zero_le_numeral)
  then show ?thesis
    by (simp add: e distance_sqrt_2 distance_groupings)
qed

section \<open>Boundary cases of the double arithmetic\<close>

text \<open>
  Four runs in which rounding or overflow decides the outcome. In each, the computed
  values are those of the program; arithmetic on the reals would decide otherwise.
\<close>

lemma ieee_sqrt_eval:
  assumes k: "0 < k" and q: "q = 2 powr of_int (e - 52)" and e: "- 1022 \<le> e"
    and lo: "(of_int k - 1 / 2)\<^sup>2 < x / q\<^sup>2" and hi: "x / q\<^sup>2 < (of_int k + 1 / 2)\<^sup>2"
    and b1: "(2 powr of_int e)\<^sup>2 \<le> x" and b2: "x < (2 powr of_int (e + 1))\<^sup>2"
    and fin: "\<bar>of_int k * q\<bar> < 2 ^ 1024"
  shows "ieee (sqrt x) = Num (of_int k * q)"
proof -
  have qp: "0 < q" by (simp add: q)
  have "sqrt x / q = sqrt (x / q\<^sup>2)"
    using qp by (simp add: real_sqrt_divide)
  then have r: "rne (sqrt x / q) = k"
    using rne_sqrt [OF k lo hi] by simp
  have "0 \<le> ((2::real) powr of_int e)\<^sup>2" by simp
  then have x0: "0 \<le> x" using b1 by linarith
  have "2 powr of_int e \<le> sqrt x"
    using b1 by (intro real_le_rsqrt)
  moreover have "sqrt x < 2 powr of_int (e + 1)"
    using b2 by (intro real_less_lsqrt) simp_all
  ultimately show ?thesis
    using x0 by (intro ieee_eval [OF _ _ e q r fin]) simp_all
qed

lemma ieee_overflow:
  assumes "2 ^ 1024 \<le> x"
  shows "ieee x = PosInfinity"
proof -
  have "(0::real) < 2 ^ 1024" by simp
  then have x: "0 < x" using assms by linarith
  define b where "b = \<lfloor>log 2 \<bar>x\<bar>\<rfloor>"
  have "(2::real) powr 1024 \<le> \<bar>x\<bar>" using assms x by (simp add: powr_numeral)
  then have "1024 \<le> log 2 \<bar>x\<bar>" using x by (subst le_log_iff) simp_all
  then have b: "1024 \<le> b" unfolding b_def by (simp add: le_floor_iff)
  then have bin: "binade x = b" by (simp add: binade_def b_def)
  have "of_int b \<le> log 2 \<bar>x\<bar>" unfolding b_def by simp
  then have le: "2 powr of_int b \<le> x" using x by (simp add: le_log_iff)
  have qd: "quantum x = 2 powr of_int (b - 52)" by (simp add: quantum_def bin)
  have "2 powr of_int b / quantum x = of_int (2 ^ nat (b - (binade x - 52)))"
    by (rule quantum_ratio) (simp add: bin)
  then have "2 powr of_int b / quantum x = of_int (2 ^ 52)"
    by (simp add: bin)
  moreover have "2 powr of_int b / quantum x \<le> x / quantum x"
    using le by (intro divide_right_mono) simp_all
  ultimately have "of_int (2 ^ 52) \<le> x / quantum x"
    by (simp only:)
  then have "2 ^ 52 \<le> \<lfloor>x / quantum x\<rfloor>" by (simp only: le_floor_iff)
  then have "2 ^ 52 \<le> rne (x / quantum x)" using rne_bounds(1) [of "x / quantum x"] by linarith
  then have "of_int (2 ^ 52) \<le> (of_int (rne (x / quantum x)) :: real)" by (simp only: of_int_le_iff)
  then have m: "of_int (2 ^ 52) * quantum x \<le> of_int (rne (x / quantum x)) * quantum x"
    by (intro mult_right_mono) simp_all
  have "(2::real) ^ 1024 = 2 powr of_int 1024"
    by (simp add: powr_numeral)
  also have "\<dots> \<le> 2 powr of_int b"
    using b by (intro powr_mono) simp_all
  also have "\<dots> = of_int (2 ^ 52) * quantum x"
    by (simp add: qd powr_diff powr_numeral)
  also note m
  finally have "2 ^ 1024 \<le> \<bar>of_int (rne (x / quantum x)) * quantum x\<bar>"
    by linarith
  then show ?thesis using x by (simp add: ieee_def Let_def)
qed

subsection \<open>A distance equal to \<open>threshold * 0.7\<close>\<close>

text \<open>
  The query \<open>[0]\<close>, the candidates \<open>D = [0.35]\<close> and \<open>B = [0]\<close>, the threshold \<open>0.5\<close>. The
  distance of \<open>D\<close> is the double \<open>0.35\<close>, and so is the product \<open>0.5 * 0.7\<close>: the test
  \<open>distance < threshold * 0.7\<close> fails, the search goes on and returns \<open>B\<close> after two
  comparisons.
\<close>

lemma ieee_035:
  "ieee (- (3152519739159347 / 9007199254740992)) = Num (- (3152519739159347 / 9007199254740992))"
  "ieee (8827055269646171 / 72057594037927936) = Num (8827055269646171 / 72057594037927936)"
  by (rule ieee_exact [where M = "- 3152519739159347" and j = "- 53"],
      simp_all add: powr_minus_divide)
     (rule ieee_exact [where M = 8827055269646171 and j = "- 56"],
      simp_all add: powr_minus_divide)

lemma ieee_035_square:
  "ieee ((3152519739159347 / 9007199254740992)\<^sup>2) = Num (8827055269646171 / 72057594037927936)"
proof -
  have "ieee ((3152519739159347 / 9007199254740992)\<^sup>2)
      = Num (of_int 8827055269646171 * (1 / 2 ^ 56))"
    by (rule ieee_eval [where e = "- 4"]) (simp_all add: powr_minus_divide rne_def power2_eq_square)
  then show ?thesis by simp
qed

lemma ieee_035_sqrt:
  "ieee (sqrt (8827055269646171 / 72057594037927936)) = Num (3152519739159347 / 9007199254740992)"
proof -
  have "ieee (sqrt (8827055269646171 / 72057594037927936))
      = Num (of_int 6305039478318694 * (1 / 2 ^ 54))"
    by (rule ieee_sqrt_eval [where e = "- 2"]) (simp_all add: powr_minus_divide power2_eq_square)
  then show ?thesis by simp
qed

lemma distance_035:
  "distance8 [0] [3152519739159347 / 9007199254740992] = Num (3152519739159347 / 9007199254740992)"
  by (simp add: distance8_def distance8_with_def sum8_unfold sum8_stop pow_term_cases
      ieee_035 ieee_035_square ieee_035_sqrt)

lemma cut_boundary:
  "early_cut (1 / 2) = Num (3152519739159347 / 9007199254740992)"
  "candidate_distance distance8 [0] profile_D = Some (3152519739159347 / 9007199254740992)"
  "findMatchingFace_counted (Some [0]) (Some [profile_D, profile_B]) (1 / 2)
     = (Some \<lparr>match = Some profile_B, distance = Num 0\<rparr>, 2)"
  by (simp_all add: eval_search profile_D_def distance_035)

subsection \<open>A distance equal to the threshold\<close>

text \<open>
  The query \<open>[1, 1, 1]\<close>, the candidate \<open>[0, 0, 0]\<close>, the threshold \<open>Math.sqrt(3)\<close>, the
  double \<open>1.7320508075688772\<close>. The computed distance is that double: \<open>findMatchingFace\<close>
  (utils), which compares with \<open><=\<close>, returns the candidate; the two others, which
  compare with \<open><\<close>, return \<open>null\<close>.
\<close>

lemma ieee_sqrt_3: "ieee (sqrt 3) = Num (3900231685776981 / 2251799813685248)"
proof -
  have "ieee (sqrt 3) = Num (of_int 7800463371553962 * (1 / 2 ^ 52))"
    by (rule ieee_sqrt_eval [where e = 0]) (simp_all add: powr_minus_divide power2_eq_square)
  then show ?thesis by simp
qed

lemma is_double_sqrt_3: "is_double (3900231685776981 / 2251799813685248)"
  unfolding is_double_def
  by (rule ieee_exact [where M = 3900231685776981 and j = "- 51"])
     (simp_all add: powr_minus_divide)

lemma distance_sqrt_3:
  "distance8 [1, 1, 1] [0, 0, 0] = Num (3900231685776981 / 2251799813685248)"
  "distance4 [1, 1, 1] [0, 0, 0] = Num (3900231685776981 / 2251799813685248)"
  by (simp_all add: eval_rounding ieee_sqrt_3)

lemma cut_sqrt_3:
  "js_lt (Num (3900231685776981 / 2251799813685248))
     (early_cut (3900231685776981 / 2251799813685248)) = False"
  using early_cut_le [OF is_double_sqrt_3]
  by (cases "early_cut (3900231685776981 / 2251799813685248)") simp_all

lemma threshold_boundary:
  "findMatchingFace (Some [1, 1, 1]) (Some [profile_O3]) (3900231685776981 / 2251799813685248)
     = Some \<lparr>match = Some profile_O3, distance = Num (3900231685776981 / 2251799813685248)\<rparr>"
  "findMatchingFaceDirectly [1, 1, 1] [profile_O3] (3900231685776981 / 2251799813685248) = None"
  "findMatchingFace_part3 (Some [1, 1, 1]) (Some [profile_O3])
     (3900231685776981 / 2251799813685248) = None"
  by (simp_all add: eval_search profile_O3_def distance_sqrt_3 cut_sqrt_3)

subsection \<open>A distance rounded up to the threshold\<close>

text \<open>
  The query \<open>[0.01, 0.5999166608788257]\<close>, the candidate \<open>[0, 0]\<close>, the threshold \<open>0.6\<close>.
  The sum of the two rounded squares is rounded, and its root is rounded to the double
  \<open>0.6\<close>: \<open>findMatchingFaceDirectly\<close> returns \<open>null\<close>, although the distance in the reals is
  below the threshold.
\<close>

lemma ieee_server_inputs:
  "ieee (5764607523034235 / 576460752303423488) = Num (5764607523034235 / 576460752303423488)"
  "ieee (5403568900774463 / 9007199254740992) = Num (5403568900774463 / 9007199254740992)"
  "ieee (6485183463413513 / 18014398509481984) = Num (6485183463413513 / 18014398509481984)"
  by (rule ieee_exact [where M = 5764607523034235 and j = "- 59"],
      simp_all add: powr_minus_divide)
     (rule ieee_exact [where M = 5403568900774463 and j = "- 53"],
      simp_all add: powr_minus_divide,
      rule ieee_exact [where M = 6485183463413513 and j = "- 54"],
      simp_all add: powr_minus_divide)

lemma ieee_server_squares:
  "ieee (5764607523034235 / 576460752303423488 * (5764607523034235 / 576460752303423488))
     = Num (7378697629483821 / 73786976294838206464)"
  "ieee (5403568900774463 / 9007199254740992 * (5403568900774463 / 9007199254740992))
     = Num (6483382023562565 / 18014398509481984)"
proof -
  have "ieee (5764607523034235 / 576460752303423488 * (5764607523034235 / 576460752303423488))
      = Num (of_int 7378697629483821 * (1 / 2 ^ 66))"
    by (rule ieee_eval [where e = "- 14"]) (simp_all add: powr_minus_divide rne_def)
  then show "ieee (5764607523034235 / 576460752303423488 * (5764607523034235 / 576460752303423488))
     = Num (7378697629483821 / 73786976294838206464)"
    by simp
  have "ieee (5403568900774463 / 9007199254740992 * (5403568900774463 / 9007199254740992))
      = Num (of_int 6483382023562565 * (1 / 2 ^ 54))"
    by (rule ieee_eval [where e = "- 2"]) (simp_all add: powr_minus_divide rne_def)
  then show "ieee (5403568900774463 / 9007199254740992 * (5403568900774463 / 9007199254740992))
     = Num (6483382023562565 / 18014398509481984)"
    by simp
qed

lemma ieee_server_sum:
  "ieee (7378697629483821 / 73786976294838206464 + 6483382023562565 / 18014398509481984)
     = Num (6485183463413513 / 18014398509481984)"
proof -
  have "ieee (7378697629483821 / 73786976294838206464 + 6483382023562565 / 18014398509481984)
      = Num (of_int 6485183463413513 * (1 / 2 ^ 54))"
    by (rule ieee_eval [where e = "- 2"]) (simp_all add: powr_minus_divide rne_def)
  then show ?thesis by simp
qed

lemma ieee_server_sqrt:
  "ieee (sqrt (6485183463413513 / 18014398509481984)) = Num (5404319552844595 / 9007199254740992)"
proof -
  have "ieee (sqrt (6485183463413513 / 18014398509481984))
      = Num (of_int 5404319552844595 * (1 / 2 ^ 53))"
    by (rule ieee_sqrt_eval [where e = "- 1"]) (simp_all add: powr_minus_divide power2_eq_square)
  then show ?thesis by simp
qed

lemma server_sum_of_squares:
  "js_add ieee
     (js_mul ieee (Num (5764607523034235 / 576460752303423488))
        (Num (5764607523034235 / 576460752303423488)))
     (js_mul ieee (Num (5403568900774463 / 9007199254740992))
        (Num (5403568900774463 / 9007199254740992)))
   = Num (6485183463413513 / 18014398509481984)"
  by (simp only: js_mul.simps js_add.simps ieee_server_squares ieee_server_sum)

lemma server_boundary:
  "distance4 [5764607523034235 / 576460752303423488, 5403568900774463 / 9007199254740992] [0, 0]
     = Num (5404319552844595 / 9007199254740992)"
  "findMatchingFaceDirectly
     [5764607523034235 / 576460752303423488, 5403568900774463 / 9007199254740992]
     [profile_O2] (5404319552844595 / 9007199254740992) = None"
  "euclidean_distance
     [5764607523034235 / 576460752303423488, 5403568900774463 / 9007199254740992] [0, 0]
     < 5404319552844595 / 9007199254740992"
proof -
  show d: "distance4 [5764607523034235 / 576460752303423488, 5403568900774463 / 9007199254740992]
      [0, 0] = Num (5404319552844595 / 9007199254740992)"
    by (simp add: distance4_def distance4_with_def sum4_unfold sum4_stop diff_term_cases
        ieee_server_inputs server_sum_of_squares ieee_server_sqrt del: js_mul.simps js_add.simps)
       (simp add: ieee_server_inputs ieee_server_sqrt)
  show "findMatchingFaceDirectly
     [5764607523034235 / 576460752303423488, 5403568900774463 / 9007199254740992]
     [profile_O2] (5404319552844595 / 9007199254740992) = None"
    by (simp add: findMatchingFaceDirectly_def findMatchingFaceDirectly_counted_def
        direct_loop_step has_descriptor_def candidate_distance_def search_init_def
        profile_O2_def d)
  show "euclidean_distance
     [5764607523034235 / 576460752303423488, 5403568900774463 / 9007199254740992] [0, 0]
     < 5404319552844595 / 9007199254740992"
    unfolding euclidean_distance_def
    by (rule real_less_lsqrt) (simp_all add: power2_eq_square)
qed

subsection \<open>A distance that overflows\<close>

text \<open>
  The query \<open>[1e200]\<close>, the candidate \<open>[-1e200]\<close>, the threshold \<open>1e308\<close> (the doubles
  \<open>5883593420661338 * 2 ^ 612\<close> and \<open>5010420900022432 * 2 ^ 971\<close>). The difference is
  \<open>2e200\<close>, its square is too large for a double and becomes \<open>Infinity\<close>, which is below
  no threshold: every search returns \<open>null\<close>.
\<close>

lemma overflow_square:
  assumes "ieee (D - - D) = Num (D - - D)" "2 ^ 1024 \<le> (D - - D)\<^sup>2"
  shows "js_pow2 ieee (js_sub ieee (Num D) (Num (- D))) = PosInfinity"
    and "js_mul ieee (js_sub ieee (Num D) (Num (- D))) (js_sub ieee (Num D) (Num (- D)))
           = PosInfinity"
proof -
  have s: "js_sub ieee (Num D) (Num (- D)) = Num (D - - D)"
    using assms(1) by (simp only: js_sub.simps)
  have p: "ieee ((D - - D)\<^sup>2) = PosInfinity"
    using assms(2) by (rule ieee_overflow)
  show "js_pow2 ieee (js_sub ieee (Num D) (Num (- D))) = PosInfinity"
    by (simp only: s js_pow2.simps p)
  show "js_mul ieee (js_sub ieee (Num D) (Num (- D))) (js_sub ieee (Num D) (Num (- D)))
           = PosInfinity"
    using p by (simp only: s js_mul.simps power2_eq_square)
qed

lemma overflow_distance:
  assumes "ieee (D - - D) = Num (D - - D)" "2 ^ 1024 \<le> (D - - D)\<^sup>2"
  shows "distance8 [D] [- D] = PosInfinity" "distance4 [D] [- D] = PosInfinity"
  by (simp_all add: distance8_def distance8_with_def distance4_def distance4_with_def
      sum8_unfold sum8_stop sum4_unfold sum4_stop pow_term_def diff_term_def js_index_def
      overflow_square [OF assms] del: js_sub.simps)

lemma double_2e200:
  "ieee (5883593420661338 * 2 ^ 612 - - (5883593420661338 * 2 ^ 612))
     = Num (5883593420661338 * 2 ^ 612 - - (5883593420661338 * 2 ^ 612))"
  "2 ^ 1024 \<le> (5883593420661338 * 2 ^ 612 - - (5883593420661338 * 2 ^ 612) :: real)\<^sup>2"
  by (rule ieee_exact [where M = 5883593420661338 and j = 613], simp_all add: powr_numeral)

lemma overflow_example:
  "distance8 [5883593420661338 * 2 ^ 612] [- (5883593420661338 * 2 ^ 612)] = PosInfinity"
  "distance4 [5883593420661338 * 2 ^ 612] [- (5883593420661338 * 2 ^ 612)] = PosInfinity"
  "findMatchingFace (Some [5883593420661338 * 2 ^ 612]) (Some [profile_far])
     (5010420900022432 * 2 ^ 971) = None"
  "findMatchingFaceDirectly [5883593420661338 * 2 ^ 612] [profile_far]
     (5010420900022432 * 2 ^ 971) = None"
  "findMatchingFace_part3 (Some [5883593420661338 * 2 ^ 612]) (Some [profile_far])
     (5010420900022432 * 2 ^ 971) = None"
  using overflow_distance [OF double_2e200]
  by (simp_all add: findMatchingFace_def findMatchingFace_counted_eq
      findMatchingFaceDirectly_def findMatchingFaceDirectly_counted_def
      findMatchingFace_part3_def findMatchingFace_part3_counted_def
      scan_batch_step direct_loop_step part3_loop_step has_descriptor_def
      candidate_distance_def search_init_def profile_far_def)

end
